theory Spec2Isabelle
  imports Main "HOL-Library.Sublist" "HOL-Library.Char_ord" "HOL-Library.List_Lexorder"
    "HOL-Library.Multiset"
begin

section \<open>JavaScript values and exceptions\<close>

text \<open>
  The command line parser hands \<^verbatim>\<open>app.js\<close> values of several JavaScript types: a string,
  a number when the argument looks numeric, \<^verbatim>\<open>true\<close> for a bare flag, \<^verbatim>\<open>null\<close> for an
  option that was not given (the defaults of lines 72-84), an array when an option is
  repeated. The code tests them with \<^verbatim>\<open>typeof\<close> and by truthiness, so they are kept as a
  datatype. Numbers are integers here: no claim depends on a fractional value.
\<close>

datatype jsval =
    JUndefined
  | JNull
  | JBool bool
  | JNum int
  | JStr string
  | JArr "jsval list"

fun typeof :: "jsval \<Rightarrow> string" where
  "typeof JUndefined = ''undefined''"
| "typeof JNull = ''object''"
| "typeof (JBool b) = ''boolean''"
| "typeof (JNum n) = ''number''"
| "typeof (JStr s) = ''string''"
| "typeof (JArr xs) = ''object''"

fun truthy :: "jsval \<Rightarrow> bool" where
  "truthy JUndefined = False"
| "truthy JNull = False"
| "truthy (JBool b) = b"
| "truthy (JNum n) = (n \<noteq> 0)"
| "truthy (JStr s) = (s \<noteq> [])"
| "truthy (JArr xs) = True"

text \<open>
  A thrown exception is a value of the left summand: \<open>Inl e\<close> is "threw \<open>e\<close>", \<open>Inr v\<close>
  is "returned \<open>v\<close>". An exception is represented by its message.
\<close>

type_synonym exn = string

type_synonym 'a thrown = "exn + 'a"

section \<open>The module sandbox (lines 27-41)\<close>

text \<open>
  \<^verbatim>\<open>global.whitelistedModuleFolders\<close> is an array of whatever was pushed on it: the string
  \<^verbatim>\<open>__dirname\<close> and then every \<^verbatim>\<open>-f\<close> argument as the parser delivered it.

  \<open>whitelistCallback\<close> is the callback given to \<^verbatim>\<open>filter\<close> (lines 33-40), run on one
  candidate path; its result is the truthiness of what the callback returns. The loop
  reads \<^verbatim>\<open>p.length\<close>: on \<^verbatim>\<open>null\<close> or \<^verbatim>\<open>undefined\<close> that is a TypeError; on a number, a
  boolean or an array the comparison \<^verbatim>\<open>path.substring(0, p.length) === p\<close> is between a
  string and a non-string, hence false. On a match the callback returns \<^verbatim>\<open>path\<close> itself,
  which \<^verbatim>\<open>filter\<close> reads as true unless it is the empty string; falling out of the loop
  returns \<^verbatim>\<open>undefined\<close>.
\<close>

fun whitelistCallback :: "jsval list \<Rightarrow> string \<Rightarrow> bool thrown" where
  "whitelistCallback [] path = Inr False"
| "whitelistCallback (JStr p # ps) path =
     (if take (length p) path = p then Inr (truthy (JStr path))
      else whitelistCallback ps path)"
| "whitelistCallback (JNull # ps) path =
     Inl ''TypeError: Cannot read property 'length' of null''"
| "whitelistCallback (JUndefined # ps) path =
     Inl ''TypeError: Cannot read property 'length' of undefined''"
| "whitelistCallback (p # ps) path = whitelistCallback ps path"

text \<open>\<^verbatim>\<open>Array.prototype.filter\<close> with a callback that may throw.\<close>

fun filterPaths :: "jsval list \<Rightarrow> string list \<Rightarrow> string list thrown" where
  "filterPaths wl [] = Inr []"
| "filterPaths wl (path # paths) =
     (case whitelistCallback wl path of
        Inl e \<Rightarrow> Inl e
      | Inr keep \<Rightarrow>
          (case filterPaths wl paths of
             Inl e \<Rightarrow> Inl e
           | Inr rest \<Rightarrow> Inr (if keep then path # rest else rest)))"

text \<open>
  The patched \<^verbatim>\<open>Module._nodeModulePaths\<close> (lines 32-41). The original function of Node,
  bound at line 31, is the parameter \<open>nodeModulePaths\<close>; the whitelist is read at the
  time of the call.
\<close>

definition Module_nodeModulePaths ::
  "(string \<Rightarrow> string list) \<Rightarrow> jsval list \<Rightarrow> string \<Rightarrow> string list thrown" where
  "Module_nodeModulePaths nodeModulePaths whitelistedModuleFolders from =
     filterPaths whitelistedModuleFolders (nodeModulePaths from)"

section \<open>Strings\<close>

text \<open>
  \<^verbatim>\<open>String.prototype.split\<close> on a one-character separator: the pieces between the
  separators, so the empty string yields one empty piece.
\<close>

fun splitOn :: "char \<Rightarrow> string \<Rightarrow> string list" where
  "splitOn c [] = [[]]"
| "splitOn c (x # xs) =
     (if x = c then [] # splitOn c xs
      else (case splitOn c xs of
              [] \<Rightarrow> [[x]]
            | piece # pieces \<Rightarrow> (x # piece) # pieces))"

text \<open>
  \<^verbatim>\<open>String.prototype.trim\<close>. A \<open>char\<close> is a byte, so the white space of the model is
  the ASCII part of JavaScript's: tab, line feed, vertical tab, form feed, carriage
  return and space.
\<close>

definition isWhiteSpace :: "char \<Rightarrow> bool" where
  "isWhiteSpace c = (of_char c \<in> {9, 10, 11, 12, 13, 32 :: nat})"

definition trim :: "string \<Rightarrow> string" where
  "trim s = rev (dropWhile isWhiteSpace (rev (dropWhile isWhiteSpace s)))"

section \<open>Semantic versions (the semver package)\<close>

text \<open>
  \<^verbatim>\<open>app.js\<close> calls \<^verbatim>\<open>semver.valid\<close> (line 311) and \<^verbatim>\<open>semver.rcompare\<close> (line 328) of the
  npm package semver, which is not part of the repository. They are modelled after
  the package's strict grammar and comparison, those of Semantic Versioning 2.0.0:
  \<^verbatim>\<open>v?MAJOR.MINOR.PATCH(-PRERELEASE)?(+BUILD)?\<close>; numeric identifiers have no leading
  zero; a version with a prerelease precedes the same version without one; prerelease
  identifiers are compared one by one, numeric ones as numbers and below the others,
  the others as ASCII strings; the build part is ignored. The package's limits on the
  length of the string and the size of the numbers are left out.
\<close>

datatype prerelease_id = Numeric nat | NonNumeric string

record semver =
  major :: nat
  minor :: nat
  patch :: nat
  prerelease :: "prerelease_id list"

definition isDigit :: "char \<Rightarrow> bool" where
  "isDigit c = (c \<in> set ''0123456789'')"

definition isIdentifierChar :: "char \<Rightarrow> bool" where
  "isIdentifierChar c =
     (c \<in> set ''0123456789abcdefghijklmnopqrstuvwxyzABCDEFGHIJKLMNOPQRSTUVWXYZ-'')"

definition isNumericIdentifier :: "string \<Rightarrow> bool" where
  "isNumericIdentifier s = (s \<noteq> [] \<and> list_all isDigit s \<and> (s = ''0'' \<or> hd s \<noteq> CHR ''0''))"

definition isNonNumericIdentifier :: "string \<Rightarrow> bool" where
  "isNonNumericIdentifier s = (list_all isIdentifierChar s \<and> \<not> list_all isDigit s)"

definition isBuildIdentifier :: "string \<Rightarrow> bool" where
  "isBuildIdentifier s = (s \<noteq> [] \<and> list_all isIdentifierChar s)"

definition digitsToNat :: "string \<Rightarrow> nat" where
  "digitsToNat s = foldl (\<lambda>n c. 10 * n + (of_char c - 48)) 0 s"

definition parseIdentifier :: "string \<Rightarrow> prerelease_id option" where
  "parseIdentifier s =
     (if isNumericIdentifier s then Some (Numeric (digitsToNat s))
      else if isNonNumericIdentifier s then Some (NonNumeric s)
      else None)"

fun parseIdentifiers :: "string list \<Rightarrow> prerelease_id list option" where
  "parseIdentifiers [] = Some []"
| "parseIdentifiers (s # ss) =
     (case parseIdentifier s of
        None \<Rightarrow> None
      | Some i \<Rightarrow> (case parseIdentifiers ss of None \<Rightarrow> None | Some ids \<Rightarrow> Some (i # ids)))"

text \<open>The part of a string before the first \<open>c\<close>, and the part after it when there is one.\<close>

definition breakAt :: "char \<Rightarrow> string \<Rightarrow> string \<times> string option" where
  "breakAt c s =
     (takeWhile (\<lambda>x. x \<noteq> c) s,
      case dropWhile (\<lambda>x. x \<noteq> c) s of [] \<Rightarrow> None | _ # rest \<Rightarrow> Some rest)"

definition parseSemVer :: "string \<Rightarrow> semver option" where
  "parseSemVer version =
     (let s = (case version of [] \<Rightarrow> [] | c # rest \<Rightarrow> if c = CHR ''v'' then rest else version);
          (beforeBuild, build) = breakAt CHR ''+'' s;
          (main, pre) = breakAt CHR ''-'' beforeBuild;
          buildOk = (case build of None \<Rightarrow> True
                     | Some b \<Rightarrow> list_all isBuildIdentifier (splitOn CHR ''.'' b));
          preIds = (case pre of None \<Rightarrow> Some []
                    | Some p \<Rightarrow> parseIdentifiers (splitOn CHR ''.'' p))
      in case (splitOn CHR ''.'' main, preIds) of
           ([a, b, c], Some ids) \<Rightarrow>
             if buildOk \<and> isNumericIdentifier a \<and> isNumericIdentifier b \<and> isNumericIdentifier c
             then Some \<lparr>major = digitsToNat a, minor = digitsToNat b, patch = digitsToNat c,
                        prerelease = ids\<rparr>
             else None
         | _ \<Rightarrow> None)"

text \<open>\<^verbatim>\<open>semver.valid(v)\<close> is the normalised version or \<^verbatim>\<open>null\<close>; line 311 uses its truthiness.\<close>

definition semver_valid :: "string \<Rightarrow> bool" where
  "semver_valid version = (parseSemVer version \<noteq> None)"

fun compareNat :: "nat \<Rightarrow> nat \<Rightarrow> int" where
  "compareNat a b = (if a < b then -1 else if b < a then 1 else 0)"

fun compareIdentifiers :: "prerelease_id \<Rightarrow> prerelease_id \<Rightarrow> int" where
  "compareIdentifiers (Numeric a) (Numeric b) = compareNat a b"
| "compareIdentifiers (Numeric a) (NonNumeric b) = -1"
| "compareIdentifiers (NonNumeric a) (Numeric b) = 1"
| "compareIdentifiers (NonNumeric a) (NonNumeric b) =
     (if a < b then -1 else if b < a then 1 else 0)"

fun comparePreList :: "prerelease_id list \<Rightarrow> prerelease_id list \<Rightarrow> int" where
  "comparePreList [] [] = 0"
| "comparePreList (a # as) [] = 1"
| "comparePreList [] (b # bs) = -1"
| "comparePreList (a # as) (b # bs) =
     (if a = b then comparePreList as bs else compareIdentifiers a b)"

definition comparePre :: "semver \<Rightarrow> semver \<Rightarrow> int" where
  "comparePre x y =
     (if prerelease x \<noteq> [] \<and> prerelease y = [] then -1
      else if prerelease x = [] \<and> prerelease y \<noteq> [] then 1
      else if prerelease x = [] \<and> prerelease y = [] then 0
      else comparePreList (prerelease x) (prerelease y))"

definition compareMain :: "semver \<Rightarrow> semver \<Rightarrow> int" where
  "compareMain x y =
     (if compareNat (major x) (major y) \<noteq> 0 then compareNat (major x) (major y)
      else if compareNat (minor x) (minor y) \<noteq> 0 then compareNat (minor x) (minor y)
      else compareNat (patch x) (patch y))"

definition compareSemVer :: "semver \<Rightarrow> semver \<Rightarrow> int" where
  "compareSemVer x y = (if compareMain x y \<noteq> 0 then compareMain x y else comparePre x y)"

text \<open>
  \<^verbatim>\<open>semver.compare(a, b)\<close> builds both versions and throws a TypeError on a string that
  is not one; \<^verbatim>\<open>semver.rcompare(a, b)\<close> is \<^verbatim>\<open>compare(b, a)\<close>.
\<close>

definition semver_compare :: "string \<Rightarrow> string \<Rightarrow> int thrown" where
  "semver_compare a b =
     (case parseSemVer a of
        None \<Rightarrow> Inl (''Invalid Version: '' @ a)
      | Some x \<Rightarrow>
          (case parseSemVer b of
             None \<Rightarrow> Inl (''Invalid Version: '' @ b)
           | Some y \<Rightarrow> Inr (compareSemVer x y)))"

definition semver_rcompare :: "string \<Rightarrow> string \<Rightarrow> int thrown" where
  "semver_rcompare a b = semver_compare b a"

section \<open>Paths (the path module)\<close>

text \<open>
  \<^verbatim>\<open>resolve\<close> is \<^verbatim>\<open>path.resolve\<close> of Node, not part of the repository; it is modelled
  after its POSIX implementation. The arguments are read from the last to the first,
  and then the working directory, until one is absolute (\<^verbatim>\<open>path.charAt(0) === '/'\<close>);
  empty ones are skipped. The pieces between slashes are then normalised from the right: a dot is
  dropped, two dots drop the next piece to their left.
\<close>

definition isAbsolute :: "string \<Rightarrow> bool" where
  "isAbsolute p = (case p of [] \<Rightarrow> False | c # rest \<Rightarrow> c = CHR ''/'')"

fun resolveLoop :: "string list \<Rightarrow> string \<Rightarrow> string \<times> bool" where
  "resolveLoop [] resolvedPath = (resolvedPath, False)"
| "resolveLoop (path # rest) resolvedPath =
     (if path = [] then resolveLoop rest resolvedPath
      else if isAbsolute path then (path @ ''/'' @ resolvedPath, True)
      else resolveLoop rest (path @ ''/'' @ resolvedPath))"

fun normalizeParts :: "string list \<Rightarrow> string list \<times> nat" where
  "normalizeParts [] = ([], 0)"
| "normalizeParts (p # ps) =
     (case normalizeParts ps of
        (kept, up) \<Rightarrow>
          if p = ''.'' then (kept, up)
          else if p = ''..'' then (kept, Suc up)
          else if 0 < up then (kept, up - 1)
          else (p # kept, up))"

definition normalizeArray :: "string list \<Rightarrow> bool \<Rightarrow> string list" where
  "normalizeArray parts allowAboveRoot =
     (case normalizeParts parts of
        (kept, up) \<Rightarrow> if allowAboveRoot then replicate up ''..'' @ kept else kept)"

fun joinWith :: "string \<Rightarrow> string list \<Rightarrow> string" where
  "joinWith sep [] = []"
| "joinWith sep [x] = x"
| "joinWith sep (x # y # ys) = x @ sep @ joinWith sep (y # ys)"

definition resolve :: "string \<Rightarrow> string list \<Rightarrow> string" where
  "resolve processCwd args =
     (case resolveLoop (rev args @ [processCwd]) [] of
        (resolvedPath, resolvedAbsolute) \<Rightarrow>
          (let parts = normalizeArray (filter (\<lambda>p. p \<noteq> []) (splitOn CHR ''/'' resolvedPath))
                         (\<not> resolvedAbsolute);
               joined = (if resolvedAbsolute then ''/'' else []) @ joinWith ''/'' parts
           in if joined = [] then ''.'' else joined))"

section \<open>The connection options (lines 265-287)\<close>

text \<open>The configuration object of \<^verbatim>\<open>./lib/config\<close>, as its properties.\<close>

type_synonym config = "(string \<times> jsval) list"

text \<open>
  The parsed command line, lines 72-111, with the long names of the options; \<open>output'\<close>
  is \<^verbatim>\<open>argv.output\<close>.
\<close>

record argv =
  input :: jsval
  output' :: jsval
  port :: jsval
  host :: jsval
  password :: jsval
  pluginfolder :: jsval
  photoshopVersion :: jsval
  photoshopPath :: jsval
  photoshopBinaryPath :: jsval
  whiteListedPlugins :: jsval

text \<open>
  The options object starts empty, and a property exists once it was assigned: \<open>None\<close>
  is a property that is absent, \<open>Some JNull\<close> one that holds \<^verbatim>\<open>null\<close>.
\<close>

record options =
  inputFd :: "jsval option"
  outputFd :: "jsval option"
  port :: "jsval option"
  hostname :: "jsval option"
  password :: "jsval option"
  photoshopVersion :: "jsval option"
  photoshopPath :: "jsval option"
  photoshopBinaryPath :: "jsval option"
  config :: "config option"

definition emptyOptions :: options where
  "emptyOptions =
     \<lparr>inputFd = None, outputFd = None, port = None, hostname = None, password = None,
      photoshopVersion = None, photoshopPath = None, photoshopBinaryPath = None,
      config = None\<rparr>"

definition transportOptions :: "argv \<Rightarrow> options" where
  "transportOptions a =
     (if (typeof (input a) = ''number'' \<and> typeof (output' a) = ''number'') \<or>
         (typeof (input a) = ''string'' \<and> typeof (output' a) = ''string'')
      then emptyOptions\<lparr>inputFd := Some (input a), outputFd := Some (output' a),
                         options.password := Some JNull\<rparr>
      else if typeof (argv.port a) = ''number'' \<and> truthy (host a) \<and> truthy (argv.password a)
      then emptyOptions\<lparr>options.port := Some (argv.port a), hostname := Some (host a),
                         options.password := Some (argv.password a)\<rparr>
      else emptyOptions)"

definition buildOptions :: "config \<Rightarrow> argv \<Rightarrow> options" where
  "buildOptions cfg a =
     (let o1 = transportOptions a;
          o2 = (if truthy (argv.photoshopVersion a) \<and> typeof (argv.photoshopVersion a) = ''string''
                then o1\<lparr>options.photoshopVersion := Some (argv.photoshopVersion a)\<rparr> else o1);
          o3 = (if truthy (argv.photoshopPath a) \<and> typeof (argv.photoshopPath a) = ''string''
                then o2\<lparr>options.photoshopPath := Some (argv.photoshopPath a)\<rparr> else o2);
          o4 = (if truthy (argv.photoshopBinaryPath a) \<and>
                   typeof (argv.photoshopBinaryPath a) = ''string''
                then o3\<lparr>options.photoshopBinaryPath := Some (argv.photoshopBinaryPath a)\<rparr>
                else o3)
      in o4\<lparr>config := Some cfg\<rparr>)"

section \<open>Plugins, collaborators and the state of the process\<close>

text \<open>
  The metadata of a plugin is what \<^verbatim>\<open>getPluginMetadata\<close> read from its
  \<^verbatim>\<open>package.json\<close>: the name, the version and the remaining properties, kept as they
  are. A descriptor is the object built at lines 159-162. A version that is not a
  string is represented by any string that is not a version: \<^verbatim>\<open>semver.valid\<close> answers
  \<^verbatim>\<open>null\<close> on both.
\<close>

record metadata =
  name :: string
  version :: string
  others :: "(string \<times> jsval) list"

record descriptor =
  path :: string
  metadata :: metadata

record compatibility =
  compatible :: bool
  message :: "string option"

text \<open>
  The generator object of \<^verbatim>\<open>./lib/generator\<close>, the file system and the working
  directory are collaborators of \<^verbatim>\<open>app.js\<close>; they are parameters of the model. A call
  that throws answers \<open>Inl\<close>. Reading the metadata and the file system is taken to
  leave both as they are; \<^verbatim>\<open>loadPlugin\<close> changes the generator, whose state \<open>'g\<close> is
  threaded through the calls, and answers \<open>Some message\<close> when it throws; \<^verbatim>\<open>start\<close>
  answers \<open>Inl err\<close> when its promise is rejected with \<open>err\<close>.
\<close>

record 'g env =
  processCwd :: string
  isDirectory :: "string \<Rightarrow> bool thrown"
  readdirSync :: "string \<Rightarrow> string list thrown"
  getPluginMetadata :: "string \<Rightarrow> metadata thrown"
  checkPluginCompatibility :: "metadata \<Rightarrow> compatibility thrown"
  loadPlugin :: "'g \<Rightarrow> string \<Rightarrow> 'g \<times> exn option"
  start :: "options \<Rightarrow> 'g \<Rightarrow> exn + 'g"

datatype level = Warn | Error

datatype logarg = Text string | Val jsval | Exception exn

text \<open>
  What the process does to the outside is recorded in its state: the global whitelist
  of module folders, the calls of the logger with their arguments, the paths given to
  \<^verbatim>\<open>getPluginMetadata\<close>, the paths given to \<^verbatim>\<open>loadPlugin\<close> with what each call
  answered, and the code given to \<^verbatim>\<open>process.exit\<close>.
\<close>

record 'g world =
  whitelistedModuleFolders :: "jsval list"
  logged :: "(level \<times> logarg list) list"
  probed :: "string list"
  attempts :: "(string \<times> exn option) list"
  generator :: 'g
  exitCode :: "int option"

definition logWarn :: "logarg list \<Rightarrow> 'g world \<Rightarrow> 'g world" where
  "logWarn args w = w\<lparr>logged := logged w @ [(Warn, args)]\<rparr>"

definition logError :: "logarg list \<Rightarrow> 'g world \<Rightarrow> 'g world" where
  "logError args w = w\<lparr>logged := logged w @ [(Error, args)]\<rparr>"

definition quote :: string where
  "quote = [CHR 0x27]"

section \<open>The scanner (lines 145-242)\<close>

text \<open>
  \<^verbatim>\<open>verifyPluginAtPath\<close>, lines 150-173. Everything that can throw is inside the
  \<^verbatim>\<open>try\<close>, and the handler is empty, so the result is \<^verbatim>\<open>null\<close> on an exception. The
  result type still has room for an exception: that none comes out is a theorem.
\<close>

definition verifyPluginAtPath ::
  "'g env \<Rightarrow> string \<Rightarrow> 'g world \<Rightarrow> descriptor option thrown \<times> 'g world" where
  "verifyPluginAtPath env absolutePath w =
     (let w1 = w\<lparr>probed := probed w @ [absolutePath]\<rparr> in
      case getPluginMetadata env absolutePath of
        Inl metadataLoadError \<Rightarrow> (Inr None, w1)
      | Inr md \<Rightarrow>
          (case checkPluginCompatibility env md of
             Inl metadataLoadError \<Rightarrow> (Inr None, w1)
           | Inr answer \<Rightarrow>
               (Inr (if compatible answer
                     then Some \<lparr>path = absolutePath, metadata = md\<rparr> else None),
                case message answer of
                  None \<Rightarrow> w1
                | Some m \<Rightarrow>
                    if m \<noteq> [] then
                      logWarn [Text (''Potential problem with plugin at '' @ quote @
                                     absolutePath @ quote @ '': '' @ m)] w1
                    else w1)))"

text \<open>\<^verbatim>\<open>checkIfPathDirectory\<close>, lines 175-183.\<close>

definition checkIfPathDirectory :: "'g env \<Rightarrow> string \<Rightarrow> 'g world \<Rightarrow> bool \<times> 'g world" where
  "checkIfPathDirectory env absolutePath w =
     (case isDirectory env absolutePath of
        Inl err \<Rightarrow> (False, logError [Exception err] w)
      | Inr result \<Rightarrow> (result, w))"

text \<open>The \<^verbatim>\<open>filter\<close> of lines 209-211 and the \<^verbatim>\<open>forEach\<close> of lines 212-217.\<close>

fun filterDirectories :: "'g env \<Rightarrow> string list \<Rightarrow> 'g world \<Rightarrow> string list \<times> 'g world" where
  "filterDirectories env [] w = ([], w)"
| "filterDirectories env (absoluteChildPath # rest) w =
     (case checkIfPathDirectory env absoluteChildPath w of
        (keep, w1) \<Rightarrow>
          (case filterDirectories env rest w1 of
             (kept, w2) \<Rightarrow> (if keep then absoluteChildPath # kept else kept, w2)))"

fun verifyEach ::
  "'g env \<Rightarrow> string list \<Rightarrow> descriptor list \<Rightarrow> 'g world \<Rightarrow> descriptor list thrown \<times> 'g world" where
  "verifyEach env [] plugins w = (Inr plugins, w)"
| "verifyEach env (absolutePluginPath # rest) plugins w =
     (case verifyPluginAtPath env absolutePluginPath w of
        (Inl e, w1) \<Rightarrow> (Inl e, w1)
      | (Inr None, w1) \<Rightarrow> verifyEach env rest plugins w1
      | (Inr (Some potentialPlugin), w1) \<Rightarrow>
          verifyEach env rest (plugins @ [potentialPlugin]) w1)"

text \<open>
  \<^verbatim>\<open>listPluginsInDirectory\<close>, lines 148-221. \<^verbatim>\<open>path.resolve\<close> throws a TypeError on an
  argument that is not a string, and \<^verbatim>\<open>readdirSync\<close> may throw: both leave the function.
\<close>

definition listPluginsInDirectory ::
  "'g env \<Rightarrow> jsval \<Rightarrow> 'g world \<Rightarrow> descriptor list thrown \<times> 'g world" where
  "listPluginsInDirectory env directory w =
     (case directory of
        JStr dir \<Rightarrow>
          (let absolutePath = resolve (processCwd env) [processCwd env, dir] in
           case checkIfPathDirectory env absolutePath w of
             (False, w1) \<Rightarrow>
               (Inr [],
                logError [Text (''Error: specified plugin path '' @ quote @ ''%s'' @ quote @
                                '' is not a directory''), Text absolutePath] w1)
           | (True, w1) \<Rightarrow>
               (case verifyPluginAtPath env absolutePath w1 of
                  (Inl e, w2) \<Rightarrow> (Inl e, w2)
                | (Inr (Some potentialPlugin), w2) \<Rightarrow> (Inr [potentialPlugin], w2)
                | (Inr None, w2) \<Rightarrow>
                    (case readdirSync env absolutePath of
                       Inl e \<Rightarrow> (Inl e, w2)
                     | Inr children \<Rightarrow>
                         (case filterDirectories env
                                 (map (\<lambda>child. resolve (processCwd env) [absolutePath, child])
                                    children) w2 of
                            (dirs, w3) \<Rightarrow> verifyEach env dirs [] w3))))
      | _ \<Rightarrow> (Inl ''TypeError: Arguments to path.resolve must be strings'', w))"

text \<open>
  The callback of \<^verbatim>\<open>folders.forEach\<close>, lines 227-239: the folder is pushed on the
  whitelist as it was given, then scanned inside a \<^verbatim>\<open>try\<close>. The warning of line 234 is
  reached only after \<^verbatim>\<open>listPluginsInDirectory\<close> returned, hence for a string \<open>f\<close>.
\<close>

definition folderText :: "jsval \<Rightarrow> string" where
  "folderText f = (case f of JStr s \<Rightarrow> s | _ \<Rightarrow> [])"

definition scanFolder ::
  "'g env \<Rightarrow> jsval \<Rightarrow> descriptor list \<Rightarrow> 'g world \<Rightarrow> descriptor list \<times> 'g world" where
  "scanFolder env f allPlugins w =
     (let w1 = w\<lparr>whitelistedModuleFolders := whitelistedModuleFolders w @ [f]\<rparr> in
      case listPluginsInDirectory env f w1 of
        (Inl e, w2) \<Rightarrow>
          (allPlugins,
           logError [Text ''Error processing plugin directory %s\<newline>'', Val f, Exception e] w2)
      | (Inr found, w2) \<Rightarrow>
          (allPlugins @ found,
           if length allPlugins = length (allPlugins @ found) then
             logWarn [Text (''No viable plugins were found in '' @ quote @ folderText f @ quote)] w2
           else w2))"

fun scanFolders ::
  "'g env \<Rightarrow> jsval list \<Rightarrow> descriptor list \<Rightarrow> 'g world \<Rightarrow> descriptor list \<times> 'g world" where
  "scanFolders env [] allPlugins w = (allPlugins, w)"
| "scanFolders env (f # fs) allPlugins w =
     (case scanFolder env f allPlugins w of
        (allPlugins1, w1) \<Rightarrow> scanFolders env fs allPlugins1 w1)"

text \<open>\<^verbatim>\<open>scanPluginDirectories\<close>, lines 145-242; a value that is not an array is wrapped.\<close>

definition asArray :: "jsval \<Rightarrow> jsval list" where
  "asArray folders = (case folders of JArr fs \<Rightarrow> fs | _ \<Rightarrow> [folders])"

definition scanPluginDirectories ::
  "'g env \<Rightarrow> jsval \<Rightarrow> 'g world \<Rightarrow> descriptor list \<times> 'g world" where
  "scanPluginDirectories env folders w = scanFolders env (asArray folders) [] w"

section \<open>The resolver (lines 289-355)\<close>

definition PLUGIN_KEY_PREFIX :: string where
  "PLUGIN_KEY_PREFIX = ''PLUGIN-''"

text \<open>
  \<^verbatim>\<open>pluginMap\<close> is an object whose keys all start with \<^verbatim>\<open>PLUGIN-\<close>, so none of them is an
  array index or a property of \<^verbatim>\<open>Object.prototype\<close>, and \<^verbatim>\<open>Object.keys\<close> lists them in
  the order of their creation: an association list, a new key at the end.
\<close>

type_synonym pluginMap = "(string \<times> descriptor list) list"

fun pushPlugin :: "string \<Rightarrow> descriptor \<Rightarrow> pluginMap \<Rightarrow> pluginMap" where
  "pushPlugin key p [] = [(key, [p])]"
| "pushPlugin key p ((k, pluginSet) # m) =
     (if k = key then (k, pluginSet @ [p]) # m else (k, pluginSet) # pushPlugin key p m)"

text \<open>Lines 311-313: the assignment changes the version inside the descriptor.\<close>

definition normalizeVersion :: "descriptor \<Rightarrow> descriptor" where
  "normalizeVersion p =
     (if \<not> semver_valid (version (metadata p))
      then p\<lparr>metadata := (metadata p)\<lparr>version := ''0.0.0''\<rparr>\<rparr>
      else p)"

text \<open>
  The \<^verbatim>\<open>forEach\<close> of lines 306-318. The descriptors are objects shared between the
  array \<^verbatim>\<open>plugins\<close> and the map, so the function answers both: the array as the loop
  leaves it and the map. Two descriptors can share one metadata object only when they
  have the same path, hence the same name and version; the loop then treats both
  alike, and values stand for the objects. \<open>skipped\<close> is the test of line 307, where
  \<^verbatim>\<open>indexOf\<close> compares the name with the entries by \<^verbatim>\<open>===\<close>.
\<close>

definition skipped :: "bool \<Rightarrow> string list \<Rightarrow> descriptor \<Rightarrow> bool" where
  "skipped shouldWhiteList whiteList p =
     (shouldWhiteList \<and> name (metadata p) \<notin> set whiteList)"

fun groupPlugins ::
  "bool \<Rightarrow> string list \<Rightarrow> descriptor list \<Rightarrow> pluginMap \<Rightarrow> descriptor list \<times> pluginMap" where
  "groupPlugins shouldWhiteList whiteList [] pluginMap = ([], pluginMap)"
| "groupPlugins shouldWhiteList whiteList (p # rest) pluginMap =
     (if skipped shouldWhiteList whiteList p then
        (case groupPlugins shouldWhiteList whiteList rest pluginMap of
           (plugins, m) \<Rightarrow> (p # plugins, m))
      else
        (let p1 = normalizeVersion p in
         case groupPlugins shouldWhiteList whiteList rest
                (pushPlugin (PLUGIN_KEY_PREFIX @ name (metadata p1)) p1 pluginMap) of
           (plugins, m) \<Rightarrow> (p1 # plugins, m)))"

text \<open>
  Lines 327-329: \<^verbatim>\<open>Array.prototype.sort\<close> with \<^verbatim>\<open>semver.rcompare\<close> on the versions. The
  model is an insertion sort that keeps the order of equal elements; an exception of
  the comparison leaves the sort.
\<close>

fun insertPlugin :: "descriptor \<Rightarrow> descriptor list \<Rightarrow> descriptor list thrown" where
  "insertPlugin a [] = Inr [a]"
| "insertPlugin a (b # rest) =
     (case semver_rcompare (version (metadata a)) (version (metadata b)) of
        Inl e \<Rightarrow> Inl e
      | Inr c \<Rightarrow>
          if c \<le> 0 then Inr (a # b # rest)
          else (case insertPlugin a rest of Inl e \<Rightarrow> Inl e | Inr r \<Rightarrow> Inr (b # r)))"

fun sortPlugins :: "descriptor list \<Rightarrow> descriptor list thrown" where
  "sortPlugins [] = Inr []"
| "sortPlugins (a # rest) =
     (case sortPlugins rest of Inl e \<Rightarrow> Inl e | Inr sortedRest \<Rightarrow> insertPlugin a sortedRest)"

text \<open>The arguments of the logger at lines 336-337.\<close>

definition unableToLoad :: "string \<Rightarrow> exn \<Rightarrow> logarg list" where
  "unableToLoad pluginPath msg =
     [Text (''Unable to load plugin at '' @ quote @ pluginPath @ quote @ '': '' @ msg)]"

text \<open>
  The loop of lines 331-344 on a sorted plugin set; the result is the flag \<^verbatim>\<open>loaded\<close>.
\<close>

fun loadFirst :: "'g env \<Rightarrow> descriptor list \<Rightarrow> 'g world \<Rightarrow> bool \<times> 'g world" where
  "loadFirst env [] w = (False, w)"
| "loadFirst env (p # rest) w =
     (case loadPlugin env (generator w) (path p) of
        (g, None) \<Rightarrow>
          (True, w\<lparr>attempts := attempts w @ [(path p, None)], generator := g\<rparr>)
      | (g, Some loadingException) \<Rightarrow>
          loadFirst env rest
            (logError (unableToLoad (path p) loadingException)
               (w\<lparr>attempts := attempts w @ [(path p, Some loadingException)],
                   generator := g\<rparr>)))"

text \<open>The callback of lines 322-346, for one plugin set, and the loop over the keys.\<close>

definition loadPluginSet ::
  "'g env \<Rightarrow> descriptor list \<Rightarrow> nat \<Rightarrow> 'g world \<Rightarrow> nat thrown \<times> 'g world" where
  "loadPluginSet env pluginSet totalPluginCount w =
     (case sortPlugins pluginSet of
        Inl e \<Rightarrow> (Inl e, w)
      | Inr sortedSet \<Rightarrow>
          (case loadFirst env sortedSet w of
             (loaded, w1) \<Rightarrow>
               (Inr (if loaded then totalPluginCount + 1 else totalPluginCount), w1)))"

fun loadPluginSets ::
  "'g env \<Rightarrow> pluginMap \<Rightarrow> nat \<Rightarrow> 'g world \<Rightarrow> nat thrown \<times> 'g world" where
  "loadPluginSets env [] totalPluginCount w = (Inr totalPluginCount, w)"
| "loadPluginSets env ((pluginSetKey, pluginSet) # rest) totalPluginCount w =
     (case loadPluginSet env pluginSet totalPluginCount w of
        (Inl e, w1) \<Rightarrow> (Inl e, w1)
      | (Inr n, w1) \<Rightarrow> loadPluginSets env rest n w1)"

text \<open>
  The success callback of \<^verbatim>\<open>start\<close>, lines 290-355: \<open>loadAllPlugins\<close> is its body up
  to line 346 and answers \<^verbatim>\<open>totalPluginCount\<close>. The callback ends by rejecting or
  resolving the promise of \<^verbatim>\<open>setupGenerator\<close>; an exception that leaves it is uncaught.
\<close>

datatype settled = Resolved | Rejected string | Uncaught exn

definition whiteListOf :: "jsval \<Rightarrow> string list" where
  "whiteListOf v = (case v of JStr s \<Rightarrow> map trim (splitOn CHR '','' s) | _ \<Rightarrow> [])"

definition loadAllPlugins :: "'g env \<Rightarrow> argv \<Rightarrow> 'g world \<Rightarrow> nat thrown \<times> 'g world" where
  "loadAllPlugins env a w =
     (case scanPluginDirectories env (pluginfolder a) w of
        (plugins, w1) \<Rightarrow>
          (let shouldWhiteList = (typeof (whiteListedPlugins a) = ''string'');
               pluginMap = snd (groupPlugins shouldWhiteList (whiteListOf (whiteListedPlugins a))
                                  plugins [])
           in loadPluginSets env pluginMap 0 w1))"

definition onStarted :: "'g env \<Rightarrow> argv \<Rightarrow> 'g world \<Rightarrow> settled \<times> 'g world" where
  "onStarted env a w =
     (case loadAllPlugins env a w of
        (Inl e, w2) \<Rightarrow> (Uncaught e, w2)
      | (Inr totalPluginCount, w2) \<Rightarrow>
          if totalPluginCount = 0 then
            (Rejected ''Generator requires at least one plugin to function, zero were loaded.'',
             w2)
          else (Resolved, w2))"

text \<open>\<^verbatim>\<open>setupGenerator\<close>, lines 244-362.\<close>

definition setupGenerator :: "'g env \<Rightarrow> config \<Rightarrow> argv \<Rightarrow> 'g world \<Rightarrow> settled \<times> 'g world" where
  "setupGenerator env cfg a w =
     (case start env (buildOptions cfg a) (generator w) of
        Inl err \<Rightarrow> (Rejected err, w)
      | Inr g \<Rightarrow> onStarted env a (w\<lparr>generator := g\<rparr>))"

section \<open>Leaving the process (lines 137-143 and 364-384)\<close>

fun showNat :: "nat \<Rightarrow> string" where
  "showNat n =
     (if n < 10 then [char_of (48 + n)] else showNat (n div 10) @ [char_of (48 + n mod 10)])"

declare showNat.simps [simp del]

definition showInt :: "int \<Rightarrow> string" where
  "showInt i = (if i < 0 then ''-'' @ showNat (nat (- i)) else showNat (nat i))"

definition stop :: "int \<Rightarrow> string \<Rightarrow> 'g world \<Rightarrow> 'g world" where
  "stop code reason w =
     (let reason1 = (if reason = [] then ''no reason given'' else reason) in
      (logError [Text (''Exiting with code '' @ showInt code @ '': '' @ reason1)] w)
        \<lparr>exitCode := Some code\<rparr>)"

text \<open>The handler of \<^verbatim>\<open>uncaughtException\<close>, lines 372-382, for an error with a message.\<close>

definition uncaughtException :: "exn \<Rightarrow> 'g world \<Rightarrow> 'g world" where
  "uncaughtException err w =
     stop (-1) (''Uncaught exception'' @ '': '' @ err) (logError [Exception err] w)"

text \<open>The handler of the generator's \<^verbatim>\<open>close\<close> event, lines 259-263, once its timer fired.\<close>

definition onClose :: "'g world \<Rightarrow> 'g world" where
  "onClose w = stop 0 ''Generator close event'' w"

text \<open>\<^verbatim>\<open>init\<close>, lines 364-370.\<close>

definition init :: "'g env \<Rightarrow> config \<Rightarrow> argv \<Rightarrow> 'g world \<Rightarrow> 'g world" where
  "init env cfg a w =
     (case setupGenerator env cfg a w of
        (Rejected err, w1) \<Rightarrow> stop (-3) (''Generator failed to initialize: '' @ err) w1
      | (Uncaught e, w1) \<Rightarrow> uncaughtException e w1
      | (Resolved, w1) \<Rightarrow> w1)"

section \<open>A small installation, for the examples\<close>

text \<open>
  The generator is installed in \<^verbatim>\<open>/opt/generator\<close>. The working directory \<^verbatim>\<open>/work\<close> holds a
  folder \<^verbatim>\<open>A\<close> that is not a plugin, with a file and two plugin folders in it: \<^verbatim>\<open>A/x\<close> is
  version 1.0.0 and \<^verbatim>\<open>A/y\<close> version 2.0.0 of the plugin \<^verbatim>\<open>demo\<close>. Loading \<^verbatim>\<open>A/y\<close>
  throws. The state of the generator counts the plugins it loaded.
\<close>

definition demoEnv :: "nat env" where
  "demoEnv =
     \<lparr>processCwd = ''/work'',
      isDirectory = (\<lambda>p. if p \<in> set [''/work'', ''/work/A'', ''/work/A/x'', ''/work/A/y'']
                          then Inr True
                          else if p = ''/work/A/readme'' then Inr False
                          else Inl ''ENOENT''),
      readdirSync = (\<lambda>p. if p = ''/work/A'' then Inr [''readme'', ''x'', ''y'']
                          else if p = ''/work'' then Inr [''A'']
                          else Inl ''ENOTDIR''),
      getPluginMetadata = (\<lambda>p.
         if p = ''/work/A/x'' then Inr \<lparr>name = ''demo'', version = ''1.0.0'', others = []\<rparr>
         else if p = ''/work/A/y'' then Inr \<lparr>name = ''demo'', version = ''2.0.0'', others = []\<rparr>
         else Inl ''Cannot find module package.json''),
      checkPluginCompatibility = (\<lambda>m. Inr \<lparr>compatible = True, message = None\<rparr>),
      loadPlugin = (\<lambda>g p. if p = ''/work/A/y'' then (g, Some ''boom'') else (Suc g, None)),
      start = (\<lambda>opts g. Inr g)\<rparr>"

definition demoArgv :: argv where
  "demoArgv =
     \<lparr>input = JNull, output' = JNull, port = JNum 49494, host = JStr ''127.0.0.1'',
      password = JStr ''password'', pluginfolder = JStr ''A'', photoshopVersion = JNull,
      photoshopPath = JNull, photoshopBinaryPath = JNull, whiteListedPlugins = JNull\<rparr>"

definition demoWorld :: "nat world" where
  "demoWorld =
     \<lparr>whitelistedModuleFolders = [JStr ''/opt/generator''], logged = [], probed = [],
      attempts = [], generator = 0, exitCode = None\<rparr>"

text \<open>The search paths Node computes for a module in \<^verbatim>\<open>/opt/generator/lib\<close>.\<close>

definition demoNodeModulePaths :: "string \<Rightarrow> string list" where
  "demoNodeModulePaths from =
     [''/opt/generator/lib/node_modules'', ''/opt/generator/node_modules'',
      ''/opt/generator-extras/node_modules'', ''/opt/node_modules'', ''/node_modules'']"

text \<open>Both pipe handles given as numbers, and a password given too.\<close>

definition pipeArgv :: argv where
  "pipeArgv = demoArgv\<lparr>input := JNum 3, output' := JNum 4, argv.password := JStr ''secret''\<rparr>"

text \<open>The two plugins of \<^verbatim>\<open>/work/A\<close> as the scanner describes them, in the order of discovery.\<close>

definition pluginX :: descriptor where
  "pluginX = \<lparr>path = ''/work/A/x'', metadata = \<lparr>name = ''demo'', version = ''1.0.0'', others = []\<rparr>\<rparr>"

definition pluginY :: descriptor where
  "pluginY = \<lparr>path = ''/work/A/y'', metadata = \<lparr>name = ''demo'', version = ''2.0.0'', others = []\<rparr>\<rparr>"

text \<open>The state after the plugin set \<open>[pluginX, pluginY]\<close> was tried on \<open>demoWorld\<close>.\<close>

definition demoLoaded :: "nat world" where
  "demoLoaded =
     demoWorld\<lparr>logged := [(Error, [Text ''Unable to load plugin at '/work/A/y': boom''])],
                attempts := [(''/work/A/y'', Some ''boom''), (''/work/A/x'', None)],
                generator := 1\<rparr>"

text \<open>
  A command line that lists two plugin names, neither of which is installed, and the
  state after the scan of \<^verbatim>\<open>A\<close>.
\<close>

definition noneListedArgv :: argv where
  "noneListedArgv = demoArgv\<lparr>whiteListedPlugins := JStr ''other, demo2''\<rparr>"

definition demoScanned :: "nat world" where
  "demoScanned =
     demoWorld\<lparr>whitelistedModuleFolders := [JStr ''/opt/generator'', JStr ''A''],
                probed := [''/work/A'', ''/work/A/x'', ''/work/A/y'']\<rparr>"

text \<open>
  The same installation with the process started inside the plugin folder \<^verbatim>\<open>A/x\<close>, and
  the state after the scan of the empty folder name (\<^verbatim>\<open>--pluginfolder=\<close>).
\<close>

definition insidePluginEnv :: "nat env" where
  "insidePluginEnv = demoEnv\<lparr>processCwd := ''/work/A/x''\<rparr>"

definition emptyFolderScanned :: "nat world" where
  "emptyFolderScanned =
     demoWorld\<lparr>whitelistedModuleFolders := [JStr ''/opt/generator'', JStr []],
                probed := [''/work/A/x'']\<rparr>"

text \<open>
  Three versions of a plugin \<^verbatim>\<open>other\<close> in a folder \<^verbatim>\<open>/work/B\<close>: one whose version is not
  a semantic version, a prerelease of 0.0.0 and a version 0.1.0.
\<close>

definition pluginJunk :: descriptor where
  "pluginJunk =
     \<lparr>path = ''/work/B/junk'', metadata = \<lparr>name = ''other'', version = ''latest'', others = []\<rparr>\<rparr>"

definition pluginPre :: descriptor where
  "pluginPre =
     \<lparr>path = ''/work/B/pre'',
      metadata = \<lparr>name = ''other'', version = ''0.0.0-alpha'', others = []\<rparr>\<rparr>"

definition pluginNew :: descriptor where
  "pluginNew =
     \<lparr>path = ''/work/B/new'', metadata = \<lparr>name = ''other'', version = ''0.1.0'', others = []\<rparr>\<rparr>"

text \<open>
  A plugin map with the two versions of \<^verbatim>\<open>demo\<close> and then one version of \<^verbatim>\<open>other\<close>, and the
  state after all of its plugin sets were tried on \<open>demoWorld\<close>.
\<close>

definition demoMap :: pluginMap where
  "demoMap = [(''PLUGIN-demo'', [pluginX, pluginY]), (''PLUGIN-other'', [pluginNew])]"

definition demoAllLoaded :: "nat world" where
  "demoAllLoaded =
     demoLoaded\<lparr>attempts := [(''/work/A/y'', Some ''boom''), (''/work/A/x'', None),
                              (''/work/B/new'', None)],
                 generator := 2\<rparr>"





section \<open>Notions used in the statements\<close>

text \<open>
  \<open>notAfter a b\<close>: the comparison of line 328 allows \<open>a\<close> to stand before \<open>b\<close>, that is,
  both versions are valid and the version of \<open>a\<close> is at least that of \<open>b\<close>. A list is
  in descending order of version when \<open>sorted_wrt notAfter\<close> holds of it.
\<close>

definition notAfter :: "descriptor \<Rightarrow> descriptor \<Rightarrow> bool" where
  "notAfter a b =
     (case semver_rcompare (version (metadata a)) (version (metadata b)) of
        Inl e \<Rightarrow> False
      | Inr c \<Rightarrow> c \<le> 0)"

text \<open>
  \<open>found env w p\<close>: the descriptor \<^verbatim>\<open>verifyPluginAtPath\<close> answers for the candidate \<open>p\<close>, if
  any. It does not depend on the state \<open>w\<close> (lemma \<open>verifyPluginAtPath_result\<close>).
\<close>

definition found :: "'g env \<Rightarrow> 'g world \<Rightarrow> string \<Rightarrow> descriptor option" where
  "found env w p = (case fst (verifyPluginAtPath env p w) of Inl e \<Rightarrow> None | Inr r \<Rightarrow> r)"

text \<open>All descriptors of a plugin map, and a descriptor with the version of line 312.\<close>

definition grouped :: "pluginMap \<Rightarrow> descriptor set" where
  "grouped m = (\<Union>entry \<in> set m. set (snd entry))"

definition withSentinel :: "descriptor \<Rightarrow> descriptor" where
  "withSentinel p = p\<lparr>metadata := (metadata p)\<lparr>version := ''0.0.0''\<rparr>\<rparr>"

text \<open>
  \<open>callsOf env g paths\<close>: what \<^verbatim>\<open>loadPlugin\<close> answers when it is called on the paths one
  after the other, starting from the generator state \<open>g\<close>, each call on the state the
  call before left; and the state the last call leaves.
\<close>

fun callsOf :: "'g env \<Rightarrow> 'g \<Rightarrow> string list \<Rightarrow> (string \<times> exn option) list \<times> 'g" where
  "callsOf env g [] = ([], g)"
| "callsOf env g (p # ps) =
     (case loadPlugin env g p of
        (g1, answer) \<Rightarrow>
          (case callsOf env g1 ps of (answers, g2) \<Rightarrow> ((p, answer) # answers, g2)))"

text \<open>
  The log expected for a list of such calls: one error entry for each call that threw,
  in order, whose text is \<^verbatim>\<open>Unable to load plugin at '\<close>, the path, \<^verbatim>\<open>': \<close> and the message
  of the exception.
\<close>

fun failureLog :: "(string \<times> exn option) list \<Rightarrow> (level \<times> logarg list) list" where
  "failureLog [] = []"
| "failureLog ((p, None) # tried) = failureLog tried"
| "failureLog ((p, Some m) # tried) =
     (Error, [Text (''Unable to load plugin at '' @ [CHR 0x27] @ p @ [CHR 0x27] @ '': '' @ m)])
       # failureLog tried"

section \<open>The sandbox admits only paths under a whitelisted prefix\<close>

lemma take_length_eq_prefix: "(take (length p) cand = p) = prefix p cand"
  by (metis append_take_drop_id prefix_def append_eq_conv_conj prefixE)

lemma whitelistCallback_True:
  "whitelistCallback wl cand = Inr True \<Longrightarrow> \<exists>p. JStr p \<in> set wl \<and> prefix p cand"
proof (induction wl cand rule: whitelistCallback.induct)
  case (2 p ps cand)
  then show ?case
    by (cases "take (length p) cand = p") (auto simp: take_length_eq_prefix)
qed auto

lemma filterPaths_sound:
  "filterPaths wl paths = Inr rs \<Longrightarrow> x \<in> set rs \<Longrightarrow>
     x \<in> set paths \<and> whitelistCallback wl x = Inr True"
proof (induction paths arbitrary: rs)
  case Nil
  then show ?case by simp
next
  case (Cons a paths)
  then show ?case
    by (auto split: sum.splits if_splits)
qed

text \<open>
  Claim C2. Whenever the patched \<^verbatim>\<open>Module._nodeModulePaths\<close> returns, every path of its
  result is one of Node's candidates and has a string entry of the whitelist, as it
  stands at the call, as a prefix. So a candidate with no whitelisted prefix is never
  in the result.
\<close>

theorem sandbox_result_under_whitelist:
  assumes "Module_nodeModulePaths nmp wl origin = Inr rs"
  shows "\<forall>x \<in> set rs. x \<in> set (nmp origin) \<and> (\<exists>p. JStr p \<in> set wl \<and> prefix p x)"
  using assms filterPaths_sound whitelistCallback_True
  unfolding Module_nodeModulePaths_def by blast

theorem sandbox_result_under_whitelist_witness:
  "Module_nodeModulePaths demoNodeModulePaths [JStr ''/opt/generator'', JStr ''A'']
     ''/opt/generator/lib''
   = Inr [''/opt/generator/lib/node_modules'', ''/opt/generator/node_modules'',
          ''/opt/generator-extras/node_modules''] \<and>
   (\<exists>p. JStr p \<in> set [JStr ''/opt/generator'', JStr ''A''] \<and>
        prefix p ''/opt/generator/node_modules'')"
proof -
  have run: "Module_nodeModulePaths demoNodeModulePaths [JStr ''/opt/generator'', JStr ''A'']
       ''/opt/generator/lib''
     = Inr [''/opt/generator/lib/node_modules'', ''/opt/generator/node_modules'',
            ''/opt/generator-extras/node_modules'']"
    by (simp add: Module_nodeModulePaths_def demoNodeModulePaths_def)
  from sandbox_result_under_whitelist [OF run] show ?thesis
    using run by simp
qed

section \<open>The sandbox compares characters, not path components\<close>

lemma whitelistCallback_strings:
  assumes "JNull \<notin> set wl" and "JUndefined \<notin> set wl" and "cand \<noteq> []"
  shows "whitelistCallback wl cand = Inr (\<exists>p. JStr p \<in> set wl \<and> prefix p cand)"
  using assms
proof (induction wl cand rule: whitelistCallback.induct)
  case (2 p ps cand)
  then show ?case
    by (cases "take (length p) cand = p") (auto simp: take_length_eq_prefix)
qed auto

lemma filterPaths_strings:
  assumes "JNull \<notin> set wl" and "JUndefined \<notin> set wl" and "[] \<notin> set paths"
  shows "filterPaths wl paths = Inr (filter (\<lambda>cand. \<exists>p. JStr p \<in> set wl \<and> prefix p cand) paths)"
  using assms
  by (induction paths) (auto simp: whitelistCallback_strings)

text \<open>
  Claim C10. On a whitelist without \<^verbatim>\<open>null\<close> or \<^verbatim>\<open>undefined\<close> (an entry on which the loop
  throws) and on candidates that are not empty (Node's all end in \<^verbatim>\<open>node_modules\<close>), the
  patched function keeps exactly the candidates that have a string entry of the
  whitelist as a prefix, character for character. No path separator is asked for after
  the prefix: every candidate that extends a whitelisted root \<open>r\<close> by any characters
  \<open>ext\<close> is admitted.
\<close>

theorem sandbox_plain_prefix:
  assumes "JNull \<notin> set wl" and "JUndefined \<notin> set wl" and "[] \<notin> set (nmp origin)"
  shows "Module_nodeModulePaths nmp wl origin =
           Inr (filter (\<lambda>cand. \<exists>p. JStr p \<in> set wl \<and> prefix p cand) (nmp origin)) \<and>
         (\<forall>r ext. JStr r \<in> set wl \<and> r @ ext \<noteq> [] \<longrightarrow>
                  whitelistCallback wl (r @ ext) = Inr True)"
proof -
  have "whitelistCallback wl (r @ ext) = Inr True" if "JStr r \<in> set wl" "r @ ext \<noteq> []" for r ext
    using whitelistCallback_strings [OF assms(1,2) that(2)] that(1) by auto
  then show ?thesis
    using filterPaths_strings [OF assms] unfolding Module_nodeModulePaths_def by blast
qed

theorem sandbox_plain_prefix_witness:
  "JNull \<notin> set [JStr ''/opt/generator'', JStr ''A''] \<and>
   JUndefined \<notin> set [JStr ''/opt/generator'', JStr ''A''] \<and>
   [] \<notin> set (demoNodeModulePaths ''/opt/generator/lib'') \<and>
   ''/opt/generator-extras/node_modules'' \<in> set (demoNodeModulePaths ''/opt/generator/lib'') \<and>
   Module_nodeModulePaths demoNodeModulePaths [JStr ''/opt/generator'', JStr ''A'']
     ''/opt/generator/lib''
   = Inr [''/opt/generator/lib/node_modules'', ''/opt/generator/node_modules'',
          ''/opt/generator-extras/node_modules''] \<and>
   whitelistCallback [JStr ''/opt/generator'', JStr ''A'']
     (''/opt/generator'' @ ''-extras/node_modules'') = Inr True"
proof -
  have h1: "JNull \<notin> set [JStr ''/opt/generator'', JStr ''A'']"
    and h2: "JUndefined \<notin> set [JStr ''/opt/generator'', JStr ''A'']"
    and h3: "[] \<notin> set (demoNodeModulePaths ''/opt/generator/lib'')"
    by (simp_all add: demoNodeModulePaths_def)
  note admitted = sandbox_plain_prefix [of "[JStr ''/opt/generator'', JStr ''A'']"
      demoNodeModulePaths "''/opt/generator/lib''", OF h1 h2 h3]
  have extended: "whitelistCallback [JStr ''/opt/generator'', JStr ''A'']
      (''/opt/generator'' @ ''-extras/node_modules'') = Inr True"
    using conjunct2 [OF admitted, rule_format, of "''/opt/generator''" "''-extras/node_modules''"]
    by simp
  have run: "Module_nodeModulePaths demoNodeModulePaths [JStr ''/opt/generator'', JStr ''A'']
       ''/opt/generator/lib''
     = Inr [''/opt/generator/lib/node_modules'', ''/opt/generator/node_modules'',
            ''/opt/generator-extras/node_modules'']"
    by (simp add: Module_nodeModulePaths_def demoNodeModulePaths_def)
  show ?thesis
    using h1 h2 h3 run extended by (simp add: demoNodeModulePaths_def)
qed

section \<open>The options of a pipe connection\<close>

text \<open>
  Claim C6, as the code has it. When both handles are given and both are numbers, or
  both are strings, the options carry the two handles, neither a port nor a host name,
  and a \<^verbatim>\<open>password\<close> property that is present and holds \<^verbatim>\<open>null\<close>, whatever password was
  given on the command line.
\<close>

theorem pipe_options:
  assumes "(typeof (input a) = ''number'' \<and> typeof (output' a) = ''number'') \<or>
           (typeof (input a) = ''string'' \<and> typeof (output' a) = ''string'')"
  shows "inputFd (buildOptions cfg a) = Some (input a) \<and>
         outputFd (buildOptions cfg a) = Some (output' a) \<and>
         options.password (buildOptions cfg a) = Some JNull \<and>
         options.port (buildOptions cfg a) = None \<and>
         hostname (buildOptions cfg a) = None"
  using assms by (simp add: buildOptions_def transportOptions_def emptyOptions_def Let_def)

theorem pipe_options_witness:
  "typeof (input pipeArgv) = ''number'' \<and> typeof (output' pipeArgv) = ''number'' \<and>
   argv.password pipeArgv = JStr ''secret'' \<and>
   inputFd (buildOptions [] pipeArgv) = Some (JNum 3) \<and>
   outputFd (buildOptions [] pipeArgv) = Some (JNum 4) \<and>
   options.password (buildOptions [] pipeArgv) = Some JNull \<and>
   options.port (buildOptions [] pipeArgv) = None \<and>
   hostname (buildOptions [] pipeArgv) = None"
proof -
  have h: "(typeof (input pipeArgv) = ''number'' \<and> typeof (output' pipeArgv) = ''number'') \<or>
           (typeof (input pipeArgv) = ''string'' \<and> typeof (output' pipeArgv) = ''string'')"
    by (simp add: pipeArgv_def demoArgv_def)
  from pipe_options [OF h, of "[]"] show ?thesis
    by (simp add: pipeArgv_def demoArgv_def)
qed

text \<open>
  The claim as written says that the password property is absent from the options. It
  is not: line 270 assigns \<^verbatim>\<open>null\<close> to it, so the property exists.
\<close>

theorem pipe_options_password_present:
  "typeof (input pipeArgv) = ''number'' \<and> typeof (output' pipeArgv) = ''number'' \<and>
   options.password (buildOptions [] pipeArgv) \<noteq> None"
  by (simp add: pipeArgv_def demoArgv_def buildOptions_def transportOptions_def
      emptyOptions_def Let_def)

section \<open>The order of semantic versions\<close>

lemma compareIdentifiers_antisym: "compareIdentifiers b a = - compareIdentifiers a b"
  by (cases a; cases b) auto

lemma compareIdentifiers_zero: "(compareIdentifiers a b = 0) = (a = b)"
  by (cases a; cases b) auto

lemma compareIdentifiers_trans:
  "compareIdentifiers a b \<le> 0 \<Longrightarrow> compareIdentifiers b c \<le> 0 \<Longrightarrow> compareIdentifiers a c \<le> 0"
  by (cases a; cases b; cases c) (auto split: if_splits)

lemma comparePreList_antisym: "comparePreList bs as = - comparePreList as bs"
proof (induction as bs rule: comparePreList.induct)
  case (4 a as b bs)
  then show ?case
    using compareIdentifiers_antisym [of b a] by auto
qed auto

lemma comparePreList_zero: "(comparePreList as bs = 0) = (as = bs)"
  by (induction as bs rule: comparePreList.induct) (auto simp: compareIdentifiers_zero)

lemma comparePreList_trans:
  "comparePreList as bs \<le> 0 \<Longrightarrow> comparePreList bs cs \<le> 0 \<Longrightarrow> comparePreList as cs \<le> 0"
proof (induction as bs arbitrary: cs rule: comparePreList.induct)
  case (4 a as b bs)
  show ?case
  proof (cases cs)
    case Nil
    with 4 show ?thesis by simp
  next
    case (Cons c cs')
    show ?thesis
    proof (cases "a = b")
      case True
      with 4 Cons show ?thesis by (auto split: if_splits)
    next
      case ab: False
      show ?thesis
      proof (cases "b = c")
        case True
        with 4 Cons ab show ?thesis by (auto split: if_splits)
      next
        case bc: False
        have "compareIdentifiers a b \<le> 0" "compareIdentifiers b c \<le> 0"
          using 4 Cons ab bc by auto
        then have le: "compareIdentifiers a c \<le> 0" by (rule compareIdentifiers_trans)
        have "a \<noteq> c"
        proof
          assume "a = c"
          with \<open>compareIdentifiers a b \<le> 0\<close> \<open>compareIdentifiers b c \<le> 0\<close>
          have "compareIdentifiers a b = 0"
            using compareIdentifiers_antisym [of b a] by simp
          with ab show False by (simp add: compareIdentifiers_zero)
        qed
        with le Cons show ?thesis by simp
      qed
    qed
  qed
next
  case (2 a as)
  then show ?case by simp
next
  case 1 then show ?case by (cases cs) auto
next
  case (3 b bs)
  then show ?case by (cases cs) auto
qed

lemma comparePre_antisym: "comparePre y x = - comparePre x y"
  using comparePreList_antisym [of "prerelease y" "prerelease x"]
  by (auto simp: comparePre_def)

lemma comparePre_zero: "(comparePre x y = 0) = (prerelease x = prerelease y)"
  by (auto simp: comparePre_def comparePreList_zero)

lemma comparePre_trans:
  "comparePre x y \<le> 0 \<Longrightarrow> comparePre y z \<le> 0 \<Longrightarrow> comparePre x z \<le> 0"
  unfolding comparePre_def
  by (auto split: if_splits intro: comparePreList_trans)

lemma compareMain_antisym: "compareMain y x = - compareMain x y"
  by (auto simp: compareMain_def)

lemma compareMain_zero:
  "(compareMain x y = 0) = (major x = major y \<and> minor x = minor y \<and> patch x = patch y)"
  by (auto simp: compareMain_def)

lemma compareMain_trans:
  "compareMain x y \<le> 0 \<Longrightarrow> compareMain y z \<le> 0 \<Longrightarrow> compareMain x z \<le> 0"
  unfolding compareMain_def by (auto split: if_splits)

lemma compareMain_strict:
  "compareMain x y \<le> 0 \<Longrightarrow> compareMain y z \<le> 0 \<Longrightarrow> compareMain x z = 0 \<Longrightarrow>
   compareMain x y = 0 \<and> compareMain y z = 0"
  unfolding compareMain_def by (auto split: if_splits)

lemma compareSemVer_antisym: "compareSemVer y x = - compareSemVer x y"
  using compareMain_antisym [of y x] comparePre_antisym [of y x]
  by (auto simp: compareSemVer_def)

lemma compareSemVer_trans:
  assumes "compareSemVer x y \<le> 0" and "compareSemVer y z \<le> 0"
  shows "compareSemVer x z \<le> 0"
proof -
  have xy: "compareMain x y \<le> 0" and yz: "compareMain y z \<le> 0"
    using assms by (auto simp: compareSemVer_def split: if_splits)
  show ?thesis
  proof (cases "compareMain x z = 0")
    case True
    with compareMain_strict [OF xy yz] have "compareMain x y = 0" "compareMain y z = 0" by auto
    with assms have "comparePre x y \<le> 0" "comparePre y z \<le> 0"
      by (auto simp: compareSemVer_def)
    then have "comparePre x z \<le> 0" by (rule comparePre_trans)
    with True show ?thesis by (simp add: compareSemVer_def)
  next
    case False
    with compareMain_trans [OF xy yz] show ?thesis by (simp add: compareSemVer_def)
  qed
qed


lemma notAfter_trans: "notAfter a b \<Longrightarrow> notAfter b c \<Longrightarrow> notAfter a c"
  unfolding notAfter_def semver_rcompare_def semver_compare_def
  by (auto split: option.splits sum.splits intro: compareSemVer_trans)

lemma notAfter_total:
  assumes "semver_rcompare (version (metadata a)) (version (metadata b)) = Inr c" and "0 < c"
  shows "notAfter b a"
proof -
  from assms(1) obtain x y where
    x: "parseSemVer (version (metadata a)) = Some x" and
    y: "parseSemVer (version (metadata b)) = Some y" and
    c: "c = compareSemVer y x"
    by (auto simp: semver_rcompare_def semver_compare_def split: option.splits)
  have "compareSemVer x y \<le> 0"
    using compareSemVer_antisym [of x y] c assms(2) by simp
  with x y show ?thesis
    by (simp add: notAfter_def semver_rcompare_def semver_compare_def)
qed

lemma insertPlugin_mset: "insertPlugin a s = Inr r \<Longrightarrow> mset r = add_mset a (mset s)"
  by (induction s arbitrary: r) (auto split: sum.splits if_splits)

lemma insertPlugin_sorted:
  "insertPlugin a s = Inr r \<Longrightarrow> sorted_wrt notAfter s \<Longrightarrow> sorted_wrt notAfter r"
proof (induction s arbitrary: r)
  case Nil
  then show ?case by auto
next
  case (Cons b rest)
  from Cons.prems(1) obtain c where
    c: "semver_rcompare (version (metadata a)) (version (metadata b)) = Inr c"
    by (auto split: sum.splits)
  show ?case
  proof (cases "c \<le> 0")
    case True
    then have ab: "notAfter a b" using c by (simp add: notAfter_def)
    have "notAfter a x" if "x \<in> set rest" for x
      using Cons.prems(2) that ab notAfter_trans by auto
    with True c ab Cons.prems show ?thesis by auto
  next
    case False
    then obtain r' where r': "insertPlugin a rest = Inr r'" and r: "r = b # r'"
      using c Cons.prems(1) by (auto split: sum.splits)
    have ba: "notAfter b a" using notAfter_total [OF c] False by simp
    have "set r' = insert a (set rest)"
      using insertPlugin_mset [OF r'] by (metis set_mset_add_mset_insert set_mset_mset)
    with Cons.IH [OF r'] Cons.prems(2) ba r show ?thesis by auto
  qed
qed

lemma sortPlugins_sorted:
  "sortPlugins ps = Inr s \<Longrightarrow> mset s = mset ps \<and> sorted_wrt notAfter s"
proof (induction ps arbitrary: s)
  case Nil
  then show ?case by simp
next
  case (Cons a ps)
  then obtain s' where s': "sortPlugins ps = Inr s'" and ins: "insertPlugin a s' = Inr s"
    by (auto split: sum.splits)
  with Cons.IH [OF s'] insertPlugin_mset [OF ins] insertPlugin_sorted [OF ins]
  show ?case by simp
qed

lemma insertPlugin_valid:
  "semver_valid (version (metadata a)) \<Longrightarrow> \<forall>b \<in> set s. semver_valid (version (metadata b)) \<Longrightarrow>
   \<exists>r. insertPlugin a s = Inr r"
  by (induction s)
     (auto simp: semver_valid_def semver_rcompare_def semver_compare_def split: sum.splits)

lemma sortPlugins_valid:
  "\<forall>b \<in> set ps. semver_valid (version (metadata b)) \<Longrightarrow> \<exists>s. sortPlugins ps = Inr s"
proof (induction ps)
  case Nil
  then show ?case by simp
next
  case (Cons a ps)
  then obtain s where s: "sortPlugins ps = Inr s" by auto
  then have "set s = set ps" using sortPlugins_sorted [OF s] by (metis set_mset_mset)
  with Cons.prems insertPlugin_valid [of a s] s show ?case by auto
qed

lemma unableToLoad_text:
  "unableToLoad p m =
     [Text (''Unable to load plugin at '' @ [CHR 0x27] @ p @ [CHR 0x27] @ '': '' @ m)]"
  by (simp add: unableToLoad_def quote_def)

lemma failureLog_threw: "failureLog ((p, Some m) # tried) = (Error, unableToLoad p m) # failureLog tried"
  by (simp add: unableToLoad_def quote_def)


text \<open>
  The loop of lines 331-344 calls \<^verbatim>\<open>loadPlugin\<close> on the first \<open>k\<close> candidates, in order;
  it stops at the first call that does not throw, and changes the state by these calls
  and their log entries only.
\<close>

lemma loadFirst_calls:
  "loadFirst env ps w = (loaded, w') \<Longrightarrow>
   \<exists>k new g2.
     k \<le> length ps \<and>
     callsOf env (generator w) (map path (take k ps)) = (new, g2) \<and>
     (\<forall>a \<in> set (butlast new). snd a \<noteq> None) \<and>
     (if loaded then new \<noteq> [] \<and> snd (last new) = None
      else k = length ps \<and> (\<forall>a \<in> set new. snd a \<noteq> None)) \<and>
     w' = w\<lparr>attempts := attempts w @ new, logged := logged w @ failureLog new,
              generator := g2\<rparr>"
proof (induction ps arbitrary: w)
  case Nil
  then show ?case
    by (intro exI [of _ 0] exI [of _ "[]"] exI [of _ "generator w"]) simp
next
  case (Cons p rest)
  obtain g answer where call: "loadPlugin env (generator w) (path p) = (g, answer)"
    by (cases "loadPlugin env (generator w) (path p)")
  show ?case
  proof (cases answer)
    case None
    with call Cons.prems have "loaded" and
      "w' = w\<lparr>attempts := attempts w @ [(path p, None)], generator := g\<rparr>"
      by auto
    with call None show ?thesis
      by (intro exI [of _ "Suc 0"] exI [of _ "[(path p, None)]"] exI [of _ g]) simp
  next
    case (Some m)
    let ?w1 = "logError (unableToLoad (path p) m)
                 (w\<lparr>attempts := attempts w @ [(path p, Some m)], generator := g\<rparr>)"
    have g1: "generator ?w1 = g" by (simp add: logError_def)
    from Some call Cons.prems have "loadFirst env rest ?w1 = (loaded, w')" by simp
    from Cons.IH [OF this] obtain k new g2 where
      k: "k \<le> length rest" and
      calls: "callsOf env g (map path (take k rest)) = (new, g2)" and
      threw: "\<forall>a \<in> set (butlast new). snd a \<noteq> None" and
      last: "if loaded then new \<noteq> [] \<and> snd (last new) = None
             else k = length rest \<and> (\<forall>a \<in> set new. snd a \<noteq> None)" and
      w': "w' = ?w1\<lparr>attempts := attempts ?w1 @ new, logged := logged ?w1 @ failureLog new,
                     generator := g2\<rparr>"
      unfolding g1 by blast
    show ?thesis
    proof (intro exI [of _ "Suc k"] exI [of _ "(path p, Some m) # new"] exI [of _ g2] conjI)
      show "Suc k \<le> length (p # rest)" using k by simp
      show "callsOf env (generator w) (map path (take (Suc k) (p # rest))) =
            ((path p, Some m) # new, g2)"
        using call Some calls by simp
      show "\<forall>a \<in> set (butlast ((path p, Some m) # new)). snd a \<noteq> None"
        using threw by auto
      show "if loaded
            then (path p, Some m) # new \<noteq> [] \<and> snd (List.last ((path p, Some m) # new)) = None
            else Suc k = length (p # rest) \<and>
                 (\<forall>a \<in> set ((path p, Some m) # new). snd a \<noteq> None)"
        using last by (auto split: if_splits)
      show "w' = w\<lparr>attempts := attempts w @ (path p, Some m) # new,
                    logged := logged w @ failureLog ((path p, Some m) # new),
                    generator := g2\<rparr>"
        unfolding w' failureLog_threw by (simp add: logError_def)
    qed
  qed
qed

lemma loadPluginSet_returns:
  assumes "\<forall>b \<in> set pluginSet. semver_valid (version (metadata b))"
  shows "\<exists>n' w'. loadPluginSet env pluginSet n w = (Inr n', w')"
proof -
  from sortPlugins_valid [OF assms] obtain sortedSet where "sortPlugins pluginSet = Inr sortedSet"
    by blast
  then show ?thesis
    by (cases "loadFirst env sortedSet w") (simp add: loadPluginSet_def)
qed

section \<open>No plugin loaded: the process exits\<close>

lemma showInt_init_code: "showInt (- 3) = ''-3''"
  by code_simp

lemma stop_exit: "exitCode (stop code reason w) = Some code"
  by (simp add: stop_def logError_def Let_def)

lemma stop_logged:
  "reason \<noteq> [] \<Longrightarrow>
   logged (stop code reason w) =
     logged w @ [(Error, [Text (''Exiting with code '' @ showInt code @ '': '' @ reason)])]"
  by (simp add: stop_def logError_def Let_def)

text \<open>A start that is rejected leaves with the same code.\<close>

lemma init_start_rejected:
  "start env (buildOptions cfg a) (generator w) = Inl err \<Longrightarrow>
   exitCode (init env cfg a w) = Some (- 3)"
  by (simp add: init_def setupGenerator_def stop_exit)

text \<open>
  Claim C3. If the generator started and the count of loaded plugins is zero after all
  plugin sets were processed, the promise of \<^verbatim>\<open>setupGenerator\<close> is rejected with the
  message that zero plugins were loaded, and \<^verbatim>\<open>init\<close> logs that message and leaves the
  process with the code -3; the close event uses 0 and an uncaught exception -1.
\<close>

theorem zero_plugins_exit:
  assumes "start env (buildOptions cfg a) (generator w) = Inr g"
    and "loadAllPlugins env a (w\<lparr>generator := g\<rparr>) = (Inr 0, w2)"
  shows "setupGenerator env cfg a w =
           (Rejected ''Generator requires at least one plugin to function, zero were loaded.'', w2) \<and>
         exitCode (init env cfg a w) = Some (- 3) \<and>
         logged (init env cfg a w) =
           logged w2 @
           [(Error, [Text (''Exiting with code -3: Generator failed to initialize: '' @
               ''Generator requires at least one plugin to function, zero were loaded.'')])] \<and>
         exitCode (onClose w0) = Some 0 \<and>
         exitCode (uncaughtException e w0) = Some (- 1)"
proof -
  have s: "setupGenerator env cfg a w =
      (Rejected ''Generator requires at least one plugin to function, zero were loaded.'', w2)"
    using assms by (simp add: setupGenerator_def onStarted_def)
  have i: "init env cfg a w =
      stop (- 3) (''Generator failed to initialize: '' @
        ''Generator requires at least one plugin to function, zero were loaded.'') w2"
    using s by (simp add: init_def)
  show ?thesis
    using s unfolding i
    by (simp add: stop_exit stop_logged showInt_init_code onClose_def uncaughtException_def)
qed

theorem zero_plugins_exit_witness:
  "start demoEnv (buildOptions [] noneListedArgv) (generator demoWorld) = Inr 0 \<and>
   loadAllPlugins demoEnv noneListedArgv (demoWorld\<lparr>generator := 0\<rparr>) = (Inr 0, demoScanned) \<and>
   setupGenerator demoEnv [] noneListedArgv demoWorld =
     (Rejected ''Generator requires at least one plugin to function, zero were loaded.'',
      demoScanned) \<and>
   exitCode (init demoEnv [] noneListedArgv demoWorld) = Some (- 3) \<and>
   logged (init demoEnv [] noneListedArgv demoWorld) =
     logged demoScanned @
     [(Error, [Text (''Exiting with code -3: Generator failed to initialize: '' @
         ''Generator requires at least one plugin to function, zero were loaded.'')])]"
proof -
  have started: "start demoEnv (buildOptions [] noneListedArgv) (generator demoWorld) = Inr 0"
    by code_simp
  have counted: "loadAllPlugins demoEnv noneListedArgv (demoWorld\<lparr>generator := 0\<rparr>) =
      (Inr 0, demoScanned)"
    by code_simp
  from zero_plugins_exit [OF started counted] show ?thesis
    using started counted by blast
qed

section \<open>The scan of one folder\<close>

lemma verifyPluginAtPath_returns: "\<exists>r. fst (verifyPluginAtPath env p w) = Inr r"
  by (simp add: verifyPluginAtPath_def Let_def split: sum.splits)

lemma verifyPluginAtPath_probed:
  "probed (snd (verifyPluginAtPath env p w)) = probed w @ [p]"
  by (simp add: verifyPluginAtPath_def Let_def logWarn_def split: sum.splits option.splits)

lemma verifyPluginAtPath_result: "fst (verifyPluginAtPath env p w) = fst (verifyPluginAtPath env p w0)"
  by (simp add: verifyPluginAtPath_def Let_def split: sum.splits)

lemma checkIfPathDirectory_result:
  "fst (checkIfPathDirectory env p w) = (isDirectory env p = Inr True)"
  by (auto simp: checkIfPathDirectory_def split: sum.splits)

lemma checkIfPathDirectory_probed: "probed (snd (checkIfPathDirectory env p w)) = probed w"
  by (simp add: checkIfPathDirectory_def logError_def split: sum.splits)

lemma checkIfPathDirectory_True:
  "isDirectory env p = Inr True \<Longrightarrow> checkIfPathDirectory env p w = (True, w)"
  by (simp add: checkIfPathDirectory_def)

lemma filterDirectories_result:
  "fst (filterDirectories env ps w) = filter (\<lambda>c. isDirectory env c = Inr True) ps"
proof (induction ps arbitrary: w)
  case Nil
  then show ?case by simp
next
  case (Cons p ps)
  show ?case
    using Cons.IH [of "snd (checkIfPathDirectory env p w)"]
      checkIfPathDirectory_result [of env p w]
    by (auto split: prod.splits)
qed

lemma filterDirectories_probed: "probed (snd (filterDirectories env ps w)) = probed w"
proof (induction ps arbitrary: w)
  case Nil
  then show ?case by simp
next
  case (Cons p ps)
  show ?case
    using Cons.IH [of "snd (checkIfPathDirectory env p w)"]
      checkIfPathDirectory_probed [of env p w]
    by (auto split: prod.splits)
qed

lemma verifyEach_result:
  "fst (verifyEach env dirs plugins w) = Inr (plugins @ List.map_filter (found env w0) dirs) \<and>
   probed (snd (verifyEach env dirs plugins w)) = probed w @ dirs"
proof (induction dirs arbitrary: plugins w)
  case Nil
  then show ?case by (simp add: List.map_filter_simps)
next
  case (Cons p rest)
  obtain r w1 where v: "verifyPluginAtPath env p w = (Inr r, w1)"
    using verifyPluginAtPath_returns [of env p w]
    by (cases "verifyPluginAtPath env p w") auto
  have f: "found env w0 p = r"
    using v verifyPluginAtPath_result [of env p w0 w] by (simp add: found_def)
  have p1: "probed w1 = probed w @ [p]"
    using v verifyPluginAtPath_probed [of env p w] by simp
  show ?case
  proof (cases r)
    case None
    with v f p1 Cons.IH [of plugins w1] show ?thesis
      by (simp add: List.map_filter_simps)
  next
    case (Some d)
    with v f p1 Cons.IH [of "plugins @ [d]" w1] show ?thesis
      by (simp add: List.map_filter_simps)
  qed
qed

text \<open>
  Claim C7. \<^verbatim>\<open>verifyPluginAtPath\<close> never throws, and when \<^verbatim>\<open>getPluginMetadata\<close> or
  \<^verbatim>\<open>checkPluginCompatibility\<close> throws it answers \<^verbatim>\<open>null\<close> and logs nothing. For a folder that resolves to a directory, the
  folder itself is the first candidate. If it yields a descriptor, that is the result
  and no other candidate is tested. If it yields none and the directory can be read,
  the candidates tested after it are exactly the entries of the directory that are
  directories themselves, in the order of the listing and no deeper, and the result
  holds the descriptors they yield.
\<close>

theorem scan_folder_then_children:
  assumes "isDirectory env (resolve (processCwd env) [processCwd env, dir]) = Inr True"
  shows "(\<exists>r. fst (verifyPluginAtPath env p w0) = Inr r) \<and>
         (\<forall>e. getPluginMetadata env p = Inl e \<or>
                (\<exists>md. getPluginMetadata env p = Inr md \<and>
                        checkPluginCompatibility env md = Inl e) \<longrightarrow>
              verifyPluginAtPath env p w0 = (Inr None, w0\<lparr>probed := probed w0 @ [p]\<rparr>)) \<and>
         (\<forall>d. fst (verifyPluginAtPath env (resolve (processCwd env) [processCwd env, dir]) w)
                 = Inr (Some d) \<longrightarrow>
              fst (listPluginsInDirectory env (JStr dir) w) = Inr [d] \<and>
              probed (snd (listPluginsInDirectory env (JStr dir) w)) =
                probed w @ [resolve (processCwd env) [processCwd env, dir]]) \<and>
         (\<forall>children.
              fst (verifyPluginAtPath env (resolve (processCwd env) [processCwd env, dir]) w)
                 = Inr None \<and>
              readdirSync env (resolve (processCwd env) [processCwd env, dir]) = Inr children \<longrightarrow>
              fst (listPluginsInDirectory env (JStr dir) w) =
                Inr (List.map_filter (found env w)
                      (filter (\<lambda>c. isDirectory env c = Inr True)
                         (map (\<lambda>child. resolve (processCwd env)
                                 [resolve (processCwd env) [processCwd env, dir], child])
                            children))) \<and>
              probed (snd (listPluginsInDirectory env (JStr dir) w)) =
                probed w @ resolve (processCwd env) [processCwd env, dir] #
                  filter (\<lambda>c. isDirectory env c = Inr True)
                    (map (\<lambda>child. resolve (processCwd env)
                            [resolve (processCwd env) [processCwd env, dir], child])
                       children))"
proof -
  let ?abs = "resolve (processCwd env) [processCwd env, dir]"
  let ?v = "verifyPluginAtPath env ?abs w"
  have dir: "checkIfPathDirectory env ?abs w = (True, w)"
    using assms by (rule checkIfPathDirectory_True)
  have a: "\<exists>r. fst (verifyPluginAtPath env p w0) = Inr r"
    by (rule verifyPluginAtPath_returns)
  have a': "verifyPluginAtPath env p w0 = (Inr None, w0\<lparr>probed := probed w0 @ [p]\<rparr>)"
    if "getPluginMetadata env p = Inl e \<or>
        (\<exists>md. getPluginMetadata env p = Inr md \<and> checkPluginCompatibility env md = Inl e)" for e
    using that by (auto simp: verifyPluginAtPath_def)
  have b: "fst (listPluginsInDirectory env (JStr dir) w) = Inr [d] \<and>
           probed (snd (listPluginsInDirectory env (JStr dir) w)) = probed w @ [?abs]"
    if "fst ?v = Inr (Some d)" for d
  proof -
    from that obtain w2 where v: "?v = (Inr (Some d), w2)" by (cases ?v) auto
    then have "listPluginsInDirectory env (JStr dir) w = (Inr [d], w2)"
      using dir by (simp add: listPluginsInDirectory_def Let_def)
    moreover have "probed w2 = probed w @ [?abs]"
      using verifyPluginAtPath_probed [of env ?abs w] v by simp
    ultimately show ?thesis by simp
  qed
  have c: "fst (listPluginsInDirectory env (JStr dir) w) =
             Inr (List.map_filter (found env w)
                   (filter (\<lambda>c. isDirectory env c = Inr True)
                      (map (\<lambda>child. resolve (processCwd env) [?abs, child]) children))) \<and>
           probed (snd (listPluginsInDirectory env (JStr dir) w)) =
             probed w @ ?abs # filter (\<lambda>c. isDirectory env c = Inr True)
                                (map (\<lambda>child. resolve (processCwd env) [?abs, child]) children)"
    if "fst ?v = Inr None" and "readdirSync env ?abs = Inr children" for children
  proof -
    let ?cs = "map (\<lambda>child. resolve (processCwd env) [?abs, child]) children"
    from that(1) obtain w2 where v: "?v = (Inr None, w2)" by (cases ?v) auto
    let ?f = "filterDirectories env ?cs w2"
    obtain dirs w3 where f: "?f = (dirs, w3)" by (cases ?f)
    have w2: "probed w2 = probed w @ [?abs]"
      using verifyPluginAtPath_probed [of env ?abs w] v by simp
    have dirs: "dirs = filter (\<lambda>c. isDirectory env c = Inr True) ?cs"
      using filterDirectories_result [of env ?cs w2] f by simp
    have w3: "probed w3 = probed w @ [?abs]"
      using filterDirectories_probed [of env ?cs w2] f w2 by simp
    have "listPluginsInDirectory env (JStr dir) w = verifyEach env dirs [] w3"
      using dir v that(2) f by (simp add: listPluginsInDirectory_def Let_def)
    then show ?thesis
      using verifyEach_result [of env dirs "[]" w3 w] dirs w3 by simp
  qed
  from a a' b c show ?thesis by blast
qed

theorem scan_folder_then_children_witness:
  "isDirectory demoEnv (resolve (processCwd demoEnv) [processCwd demoEnv, ''A'']) = Inr True \<and>
   resolve (processCwd demoEnv) [processCwd demoEnv, ''A''] = ''/work/A'' \<and>
   getPluginMetadata demoEnv ''/work/A'' = Inl ''Cannot find module package.json'' \<and>
   fst (verifyPluginAtPath demoEnv ''/work/A'' demoWorld) = Inr None \<and>
   readdirSync demoEnv ''/work/A'' = Inr [''readme'', ''x'', ''y''] \<and>
   fst (listPluginsInDirectory demoEnv (JStr ''A'') demoWorld) = Inr [pluginX, pluginY] \<and>
   probed (snd (listPluginsInDirectory demoEnv (JStr ''A'') demoWorld)) =
     probed demoWorld @ [''/work/A'', ''/work/A/x'', ''/work/A/y'']"
proof -
  have abs: "resolve (processCwd demoEnv) [processCwd demoEnv, ''A''] = ''/work/A''"
    by code_simp
  have isdir: "isDirectory demoEnv (resolve (processCwd demoEnv) [processCwd demoEnv, ''A'']) = Inr True"
    by code_simp
  have thrown: "getPluginMetadata demoEnv ''/work/A'' = Inl ''Cannot find module package.json''"
    by code_simp
  have none: "fst (verifyPluginAtPath demoEnv ''/work/A'' demoWorld) = Inr None"
    by code_simp
  have children: "readdirSync demoEnv ''/work/A'' = Inr [''readme'', ''x'', ''y'']"
    by code_simp
  have dirs: "filter (\<lambda>c. isDirectory demoEnv c = Inr True)
      (map (\<lambda>child. resolve (processCwd demoEnv) [''/work/A'', child]) [''readme'', ''x'', ''y''])
      = [''/work/A/x'', ''/work/A/y'']"
    by code_simp
  have plugins: "List.map_filter (found demoEnv demoWorld) [''/work/A/x'', ''/work/A/y'']
      = [pluginX, pluginY]"
    by code_simp
  note scan = scan_folder_then_children [OF isdir, of "''/work/A''" demoWorld demoWorld, unfolded abs,
      THEN conjunct2, THEN conjunct2, THEN conjunct2, rule_format, OF conjI, OF none children,
      unfolded dirs plugins]
  show ?thesis
    using abs isdir thrown none children scan by simp
qed

section \<open>What the scan registers and what it finds\<close>

lemma resolveLoop_absolute:
  "isAbsolute cwd \<Longrightarrow> snd (resolveLoop (xs @ [cwd]) acc) = True"
  by (induction xs arbitrary: acc) (auto simp: isAbsolute_def)

lemma resolve_absolute: "isAbsolute cwd \<Longrightarrow> isAbsolute (resolve cwd args)"
  using resolveLoop_absolute [of cwd "rev args" "[]"]
  by (auto simp: resolve_def isAbsolute_def Let_def split: prod.splits)

lemma relative_not_prefix:
  "isAbsolute p \<Longrightarrow> f \<noteq> [] \<Longrightarrow> \<not> isAbsolute f \<Longrightarrow> \<not> prefix f p"
  by (cases p; cases f) (auto simp: isAbsolute_def)

lemma verifyPluginAtPath_path:
  "fst (verifyPluginAtPath env p w) = Inr (Some d) \<Longrightarrow> path d = p"
  by (auto simp: verifyPluginAtPath_def Let_def split: sum.splits if_splits)

lemma verifyPluginAtPath_whitelist:
  "whitelistedModuleFolders (snd (verifyPluginAtPath env p w)) = whitelistedModuleFolders w"
  by (simp add: verifyPluginAtPath_def Let_def logWarn_def split: sum.splits option.splits)

lemma checkIfPathDirectory_whitelist:
  "whitelistedModuleFolders (snd (checkIfPathDirectory env p w)) = whitelistedModuleFolders w"
  by (simp add: checkIfPathDirectory_def logError_def split: sum.splits)

lemma filterDirectories_whitelist:
  "whitelistedModuleFolders (snd (filterDirectories env ps w)) = whitelistedModuleFolders w"
proof (induction ps arbitrary: w)
  case Nil
  then show ?case by simp
next
  case (Cons p ps)
  show ?case
    using Cons.IH [of "snd (checkIfPathDirectory env p w)"]
      checkIfPathDirectory_whitelist [of env p w]
    by (auto split: prod.splits)
qed

lemma filterDirectories_subset: "set (fst (filterDirectories env ps w)) \<subseteq> set ps"
proof (induction ps arbitrary: w)
  case Nil
  then show ?case by simp
next
  case (Cons p ps)
  show ?case
    using Cons.IH [of "snd (checkIfPathDirectory env p w)"]
    by (auto split: prod.splits)
qed

lemma verifyEach_whitelist:
  "whitelistedModuleFolders (snd (verifyEach env dirs plugins w)) = whitelistedModuleFolders w"
proof (induction dirs arbitrary: plugins w)
  case Nil
  then show ?case by simp
next
  case (Cons p rest)
  obtain r w1 where v: "verifyPluginAtPath env p w = (r, w1)"
    by (cases "verifyPluginAtPath env p w")
  then have "whitelistedModuleFolders w1 = whitelistedModuleFolders w"
    using verifyPluginAtPath_whitelist [of env p w] by simp
  with v Cons.IH show ?case
    by (auto split: sum.splits option.splits)
qed

lemma verifyEach_paths:
  "fst (verifyEach env dirs plugins w) = Inr ds \<Longrightarrow> d \<in> set ds \<Longrightarrow>
   d \<in> set plugins \<or> path d \<in> set dirs"
proof (induction dirs arbitrary: plugins w)
  case Nil
  then show ?case by simp
next
  case (Cons p rest)
  obtain r w1 where v: "verifyPluginAtPath env p w = (r, w1)"
    by (cases "verifyPluginAtPath env p w")
  show ?case
  proof (cases r)
    case (Inl e)
    with v Cons.prems show ?thesis by simp
  next
    case (Inr potentialPlugin)
    show ?thesis
    proof (cases potentialPlugin)
      case None
      with v Inr Cons.prems Cons.IH [of plugins w1] show ?thesis by auto
    next
      case (Some x)
      then have "path x = p"
        using v Inr verifyPluginAtPath_path [of env p w x] by simp
      with Some v Inr Cons.prems Cons.IH [of "plugins @ [x]" w1] show ?thesis by auto
    qed
  qed
qed

lemma listPluginsInDirectory_whitelist:
  "whitelistedModuleFolders (snd (listPluginsInDirectory env f w)) = whitelistedModuleFolders w"
proof (cases f)
  case (JStr dir)
  let ?abs = "resolve (processCwd env) [processCwd env, dir]"
  obtain b w1 where c: "checkIfPathDirectory env ?abs w = (b, w1)"
    by (cases "checkIfPathDirectory env ?abs w")
  then have w1: "whitelistedModuleFolders w1 = whitelistedModuleFolders w"
    using checkIfPathDirectory_whitelist [of env ?abs w] by simp
  obtain r w2 where v: "verifyPluginAtPath env ?abs w1 = (r, w2)"
    by (cases "verifyPluginAtPath env ?abs w1")
  then have w2: "whitelistedModuleFolders w2 = whitelistedModuleFolders w"
    using verifyPluginAtPath_whitelist [of env ?abs w1] w1 by simp
  have w3: "whitelistedModuleFolders y = whitelistedModuleFolders w"
    if "filterDirectories env cs w2 = (x, y)" for cs x y
    using filterDirectories_whitelist [of env cs w2] w2 that by simp
  show ?thesis
    using JStr c v w1 w2 w3
    by (auto simp: listPluginsInDirectory_def Let_def logError_def verifyEach_whitelist
        split: sum.splits option.splits prod.splits bool.splits)
qed (simp_all add: listPluginsInDirectory_def)

lemma listPluginsInDirectory_paths:
  assumes "fst (listPluginsInDirectory env f w) = Inr ds" and "d \<in> set ds"
  shows "\<exists>dir. f = JStr dir \<and>
           (path d = resolve (processCwd env) [processCwd env, dir] \<or>
            (\<exists>child. path d = resolve (processCwd env)
                                [resolve (processCwd env) [processCwd env, dir], child]))"
proof (cases f)
  case (JStr dir)
  let ?abs = "resolve (processCwd env) [processCwd env, dir]"
  obtain b w1 where c: "checkIfPathDirectory env ?abs w = (b, w1)"
    by (cases "checkIfPathDirectory env ?abs w")
  obtain r w2 where v: "verifyPluginAtPath env ?abs w1 = (r, w2)"
    by (cases "verifyPluginAtPath env ?abs w1")
  show ?thesis
  proof (cases b)
    case False
    with JStr c assms show ?thesis by (simp add: listPluginsInDirectory_def Let_def)
  next
    case True
    show ?thesis
    proof (cases r)
      case (Inl e)
      with JStr c v True assms show ?thesis by (simp add: listPluginsInDirectory_def Let_def)
    next
      case (Inr potentialPlugin)
      show ?thesis
      proof (cases potentialPlugin)
        case (Some x)
        then have "path x = ?abs"
          using v Inr verifyPluginAtPath_path [of env ?abs w1 x] by simp
        with Some JStr c v True Inr assms show ?thesis
          by (auto simp: listPluginsInDirectory_def Let_def)
      next
        case None
        show ?thesis
        proof (cases "readdirSync env ?abs")
          case (Inl e)
          with None JStr c v True Inr assms show ?thesis
            by (simp add: listPluginsInDirectory_def Let_def)
        next
          case (Inr children)
          let ?cs = "map (\<lambda>child. resolve (processCwd env) [?abs, child]) children"
          obtain dirs w3 where f: "filterDirectories env ?cs w2 = (dirs, w3)"
            by (cases "filterDirectories env ?cs w2")
          have sub: "set dirs \<subseteq> set ?cs"
            using filterDirectories_subset [of env ?cs w2] f by simp
          have "fst (verifyEach env dirs [] w3) = Inr ds"
            using None JStr c v True \<open>r = Inr potentialPlugin\<close> Inr f assms
            by (simp add: listPluginsInDirectory_def Let_def)
          from verifyEach_paths [OF this assms(2)] have "path d \<in> set dirs" by simp
          with sub have "path d \<in> set ?cs" by blast
          with JStr show ?thesis by auto
        qed
      qed
    qed
  qed
qed (use assms in \<open>simp_all add: listPluginsInDirectory_def\<close>)


lemma scanFolder_whitelist:
  "whitelistedModuleFolders (snd (scanFolder env f allPlugins w)) = whitelistedModuleFolders w @ [f]"
proof -
  let ?w1 = "w\<lparr>whitelistedModuleFolders := whitelistedModuleFolders w @ [f]\<rparr>"
  obtain r w2 where l: "listPluginsInDirectory env f ?w1 = (r, w2)"
    by (cases "listPluginsInDirectory env f ?w1")
  then have "whitelistedModuleFolders w2 = whitelistedModuleFolders w @ [f]"
    using listPluginsInDirectory_whitelist [of env f ?w1] by simp
  with l show ?thesis
    by (auto simp: scanFolder_def Let_def logError_def logWarn_def split: sum.splits)
qed

lemma scanFolder_paths:
  assumes "d \<in> set (fst (scanFolder env f allPlugins w))"
  shows "d \<in> set allPlugins \<or>
         (\<exists>dir. f = JStr dir \<and>
           (path d = resolve (processCwd env) [processCwd env, dir] \<or>
            (\<exists>child. path d = resolve (processCwd env)
                                [resolve (processCwd env) [processCwd env, dir], child])))"
proof -
  let ?w1 = "w\<lparr>whitelistedModuleFolders := whitelistedModuleFolders w @ [f]\<rparr>"
  obtain r w2 where l: "listPluginsInDirectory env f ?w1 = (r, w2)"
    by (cases "listPluginsInDirectory env f ?w1")
  show ?thesis
  proof (cases r)
    case (Inl e)
    with l assms show ?thesis by (simp add: scanFolder_def Let_def)
  next
    case (Inr ds)
    with l assms have "d \<in> set allPlugins \<or> d \<in> set ds"
      by (auto simp: scanFolder_def Let_def)
    moreover have "fst (listPluginsInDirectory env f ?w1) = Inr ds"
      using l Inr by simp
    ultimately show ?thesis
      using listPluginsInDirectory_paths [of env f ?w1 ds d] by blast
  qed
qed

lemma scanFolders_whitelist:
  "whitelistedModuleFolders (snd (scanFolders env fs allPlugins w)) = whitelistedModuleFolders w @ fs"
proof (induction fs arbitrary: allPlugins w)
  case Nil
  then show ?case by simp
next
  case (Cons f fs)
  obtain ps w1 where s: "scanFolder env f allPlugins w = (ps, w1)"
    by (cases "scanFolder env f allPlugins w")
  then have "whitelistedModuleFolders w1 = whitelistedModuleFolders w @ [f]"
    using scanFolder_whitelist [of env f allPlugins w] by simp
  with s Cons.IH [of ps w1] show ?case by simp
qed

lemma scanFolders_paths:
  "d \<in> set (fst (scanFolders env fs allPlugins w)) \<Longrightarrow>
   d \<in> set allPlugins \<or>
   (\<exists>dir. JStr dir \<in> set fs \<and>
      (path d = resolve (processCwd env) [processCwd env, dir] \<or>
       (\<exists>child. path d = resolve (processCwd env)
                           [resolve (processCwd env) [processCwd env, dir], child])))"
proof (induction fs arbitrary: allPlugins w)
  case Nil
  then show ?case by simp
next
  case (Cons f fs)
  obtain ps w1 where s: "scanFolder env f allPlugins w = (ps, w1)"
    by (cases "scanFolder env f allPlugins w")
  with Cons.prems have "d \<in> set (fst (scanFolders env fs ps w1))" by simp
  from Cons.IH [OF this] show ?case
  proof
    assume "d \<in> set ps"
    then have "d \<in> set (fst (scanFolder env f allPlugins w))" using s by simp
    from scanFolder_paths [OF this] show ?thesis by auto
  next
    assume "\<exists>dir. JStr dir \<in> set fs \<and>
      (path d = resolve (processCwd env) [processCwd env, dir] \<or>
       (\<exists>child. path d = resolve (processCwd env)
                           [resolve (processCwd env) [processCwd env, dir], child]))"
    then show ?thesis by auto
  qed
qed

text \<open>
  Claim C9, as the code has it. With an absolute working directory, the scan appends
  every folder argument to the whitelist as it was given, in order. Every descriptor it
  returns has the path to which a string folder argument resolves against the working
  directory, or the resolution of an entry of that directory against it; this path is
  absolute. Hence no folder argument that is relative and not empty is a prefix of the
  path of a descriptor.
\<close>

theorem scan_whitelists_folder_verbatim:
  assumes "isAbsolute (processCwd env)"
    and "scanPluginDirectories env folders w = (plugins, w')"
  shows "whitelistedModuleFolders w' = whitelistedModuleFolders w @ asArray folders \<and>
         (\<forall>d \<in> set plugins.
            (\<exists>dir. JStr dir \<in> set (asArray folders) \<and>
               (path d = resolve (processCwd env) [processCwd env, dir] \<or>
                (\<exists>child. path d = resolve (processCwd env)
                                    [resolve (processCwd env) [processCwd env, dir], child]))) \<and>
            isAbsolute (path d) \<and>
            (\<forall>f. JStr f \<in> set (asArray folders) \<and> f \<noteq> [] \<and> \<not> isAbsolute f \<longrightarrow>
                 \<not> prefix f (path d)))"
proof -
  have wl: "whitelistedModuleFolders w' = whitelistedModuleFolders w @ asArray folders"
    using assms(2) scanFolders_whitelist [of env "asArray folders" "[]" w]
    by (simp add: scanPluginDirectories_def)
  have each: "(\<exists>dir. JStr dir \<in> set (asArray folders) \<and>
               (path d = resolve (processCwd env) [processCwd env, dir] \<or>
                (\<exists>child. path d = resolve (processCwd env)
                                    [resolve (processCwd env) [processCwd env, dir], child]))) \<and>
            isAbsolute (path d) \<and>
            (\<forall>f. JStr f \<in> set (asArray folders) \<and> f \<noteq> [] \<and> \<not> isAbsolute f \<longrightarrow>
                 \<not> prefix f (path d))"
    if "d \<in> set plugins" for d
  proof -
    from that assms(2) have "d \<in> set (fst (scanFolders env (asArray folders) [] w))"
      by (simp add: scanPluginDirectories_def)
    from scanFolders_paths [OF this] have p: "\<exists>dir. JStr dir \<in> set (asArray folders) \<and>
               (path d = resolve (processCwd env) [processCwd env, dir] \<or>
                (\<exists>child. path d = resolve (processCwd env)
                                    [resolve (processCwd env) [processCwd env, dir], child]))"
      by simp
    then have a: "isAbsolute (path d)"
      using resolve_absolute [OF assms(1)] by auto
    with p relative_not_prefix [OF a] show ?thesis by blast
  qed
  from wl each show ?thesis by blast
qed


theorem scan_whitelists_folder_verbatim_witness:
  "isAbsolute (processCwd demoEnv) \<and>
   scanPluginDirectories demoEnv (JStr ''A'') demoWorld = ([pluginX, pluginY], demoScanned) \<and>
   whitelistedModuleFolders demoScanned = whitelistedModuleFolders demoWorld @ [JStr ''A''] \<and>
   path pluginY = resolve (processCwd demoEnv) [resolve (processCwd demoEnv) [processCwd demoEnv, ''A''], ''y''] \<and>
   isAbsolute (path pluginY) \<and>
   \<not> isAbsolute ''A'' \<and>
   \<not> prefix ''A'' (path pluginY)"
proof -
  have cwd: "isAbsolute (processCwd demoEnv)"
    by code_simp
  have run: "scanPluginDirectories demoEnv (JStr ''A'') demoWorld = ([pluginX, pluginY], demoScanned)"
    by code_simp
  have child: "path pluginY =
      resolve (processCwd demoEnv) [resolve (processCwd demoEnv) [processCwd demoEnv, ''A''], ''y'']"
    by code_simp
  have rel: "\<not> isAbsolute ''A''"
    by code_simp
  note scan = scan_whitelists_folder_verbatim [OF cwd run]
  from scan have wl: "whitelistedModuleFolders demoScanned = whitelistedModuleFolders demoWorld @ [JStr ''A'']"
    by (simp add: asArray_def)
  from scan have "isAbsolute (path pluginY) \<and>
      (\<forall>f. JStr f \<in> set (asArray (JStr ''A'')) \<and> f \<noteq> [] \<and> \<not> isAbsolute f \<longrightarrow>
           \<not> prefix f (path pluginY))"
    by simp
  with rel have "isAbsolute (path pluginY) \<and> \<not> prefix ''A'' (path pluginY)"
    by (simp add: asArray_def)
  with cwd run child rel wl show ?thesis by blast
qed

text \<open>
  The claim as written covers every relative folder argument. The empty string is one:
  it resolves to the working directory, it is registered as it is, and it is a prefix
  of every path.
\<close>

theorem empty_folder_is_prefix_of_every_path:
  "isAbsolute (processCwd insidePluginEnv) \<and>
   \<not> isAbsolute [] \<and>
   scanPluginDirectories insidePluginEnv (JStr []) demoWorld = ([pluginX], emptyFolderScanned) \<and>
   whitelistedModuleFolders emptyFolderScanned = whitelistedModuleFolders demoWorld @ [JStr []] \<and>
   path pluginX = resolve (processCwd insidePluginEnv) [processCwd insidePluginEnv, []] \<and>
   prefix [] (path pluginX)"
  by code_simp

section \<open>Grouping the plugins by name\<close>

lemma parse_sentinel:
  "parseSemVer ''0.0.0'' = Some \<lparr>major = 0, minor = 0, patch = 0, prerelease = []\<rparr>"
  by code_simp

lemma valid_sentinel: "semver_valid ''0.0.0''"
  by (simp add: semver_valid_def parse_sentinel)

lemma normalizeVersion_fields:
  "path (normalizeVersion p) = path p"
  "name (metadata (normalizeVersion p)) = name (metadata p)"
  "others (metadata (normalizeVersion p)) = others (metadata p)"
  "version (metadata (normalizeVersion p)) =
     (if semver_valid (version (metadata p)) then version (metadata p) else ''0.0.0'')"
  by (simp_all add: normalizeVersion_def)

lemma normalizeVersion_valid: "semver_valid (version (metadata (normalizeVersion p)))"
  by (simp add: normalizeVersion_fields valid_sentinel)

lemma normalizeVersion_invalid:
  "\<not> semver_valid (version (metadata p)) \<Longrightarrow> normalizeVersion p = withSentinel p"
  by (simp add: normalizeVersion_def withSentinel_def)

lemma grouped_Nil: "grouped [] = {}"
  by (simp add: grouped_def)

lemma grouped_Cons: "grouped (entry # m) = set (snd entry) \<union> grouped m"
  by (simp add: grouped_def)

lemma pushPlugin_grouped: "grouped (pushPlugin key p m) = insert p (grouped m)"
proof (induction m)
  case Nil
  then show ?case by (simp add: grouped_Nil grouped_Cons)
next
  case (Cons e m)
  obtain k ps where e: "e = (k, ps)" by (cases e)
  show ?case
  proof (cases "k = key")
    case True
    with e show ?thesis by (auto simp: grouped_Cons)
  next
    case False
    with e Cons.IH show ?thesis by (auto simp: grouped_Cons)
  qed
qed

lemma pushPlugin_entry: "\<exists>ps. (key, ps) \<in> set (pushPlugin key p m) \<and> p \<in> set ps"
proof (induction m)
  case Nil
  then show ?case by simp
next
  case (Cons e m)
  obtain k ps where e: "e = (k, ps)" by (cases e)
  show ?case
  proof (cases "k = key")
    case True
    with e show ?thesis by (intro exI [of _ "ps @ [p]"]) simp
  next
    case False
    from Cons.IH obtain ps' where "(key, ps') \<in> set (pushPlugin key p m)" "p \<in> set ps'"
      by blast
    with e False show ?thesis by (intro exI [of _ ps']) simp
  qed
qed

lemma pushPlugin_keeps:
  "(k, ps) \<in> set m \<Longrightarrow> \<exists>ps'. (k, ps') \<in> set (pushPlugin key p m) \<and> set ps \<subseteq> set ps'"
proof (induction m)
  case Nil
  then show ?case by simp
next
  case (Cons e m)
  obtain k0 ps0 where e: "e = (k0, ps0)" by (cases e)
  show ?case
  proof (cases "(k, ps) = e")
    case True
    show ?thesis
    proof (cases "k0 = key")
      case k: True
      with e True show ?thesis by (intro exI [of _ "ps @ [p]"]) auto
    next
      case False
      with e True show ?thesis by (intro exI [of _ ps]) auto
    qed
  next
    case False
    with Cons.prems have "(k, ps) \<in> set m" by simp
    from Cons.IH [OF this] obtain ps' where
      ps': "(k, ps') \<in> set (pushPlugin key p m)" "set ps \<subseteq> set ps'" by blast
    show ?thesis
    proof (cases "k0 = key")
      case True
      with e \<open>(k, ps) \<in> set m\<close> show ?thesis by (intro exI [of _ ps]) auto
    next
      case False
      with e ps' show ?thesis by (intro exI [of _ ps']) auto
    qed
  qed
qed

lemma groupPlugins_skip:
  "skipped swl wl p \<Longrightarrow>
   snd (groupPlugins swl wl (p # rest) m) = snd (groupPlugins swl wl rest m)"
  by (simp split: prod.splits)

lemma groupPlugins_take:
  "\<not> skipped swl wl p \<Longrightarrow>
   snd (groupPlugins swl wl (p # rest) m) =
     snd (groupPlugins swl wl rest
            (pushPlugin (PLUGIN_KEY_PREFIX @ name (metadata p)) (normalizeVersion p) m))"
  by (simp add: Let_def normalizeVersion_fields split: prod.splits)

lemma groupPlugins_keeps:
  "(k, ps) \<in> set m \<Longrightarrow>
   \<exists>ps'. (k, ps') \<in> set (snd (groupPlugins swl wl plugins m)) \<and> set ps \<subseteq> set ps'"
proof (induction plugins arbitrary: m ps)
  case Nil
  then show ?case by auto
next
  case (Cons p rest)
  show ?case
  proof (cases "skipped swl wl p")
    case True
    with Cons.IH [OF Cons.prems] show ?thesis by (simp add: groupPlugins_skip del: groupPlugins.simps)
  next
    case False
    let ?m1 = "pushPlugin (PLUGIN_KEY_PREFIX @ name (metadata p)) (normalizeVersion p) m"
    from pushPlugin_keeps [OF Cons.prems] obtain ps1 where
      ps1: "(k, ps1) \<in> set ?m1" "set ps \<subseteq> set ps1" by blast
    from Cons.IH [OF ps1(1)] obtain ps' where
      "(k, ps') \<in> set (snd (groupPlugins swl wl rest ?m1))" "set ps1 \<subseteq> set ps'" by blast
    with ps1(2) False show ?thesis
      by (intro exI [of _ ps']) (auto simp: groupPlugins_take simp del: groupPlugins.simps)
  qed
qed

lemma groupPlugins_entry:
  "p \<in> set plugins \<Longrightarrow> \<not> skipped swl wl p \<Longrightarrow>
   \<exists>ps. (PLUGIN_KEY_PREFIX @ name (metadata p), ps) \<in> set (snd (groupPlugins swl wl plugins m)) \<and>
        normalizeVersion p \<in> set ps"
proof (induction plugins arbitrary: m)
  case Nil
  then show ?case by simp
next
  case (Cons q rest)
  show ?case
  proof (cases "p = q")
    case True
    let ?key = "PLUGIN_KEY_PREFIX @ name (metadata p)"
    let ?m1 = "pushPlugin ?key (normalizeVersion p) m"
    from pushPlugin_entry [of ?key "normalizeVersion p" m] obtain ps1 where
      ps1: "(?key, ps1) \<in> set ?m1" "normalizeVersion p \<in> set ps1" by blast
    from groupPlugins_keeps [OF ps1(1), of swl wl rest] obtain ps' where
      "(?key, ps') \<in> set (snd (groupPlugins swl wl rest ?m1))" "set ps1 \<subseteq> set ps'" by blast
    with ps1(2) True Cons.prems(2) show ?thesis
      by (intro exI [of _ ps']) (auto simp: groupPlugins_take simp del: groupPlugins.simps)
  next
    case False
    with Cons.prems have "p \<in> set rest" by simp
    note ih = Cons.IH [OF this Cons.prems(2)]
    show ?thesis
    proof (cases "skipped swl wl q")
      case False
      with ih show ?thesis by (simp add: groupPlugins_take del: groupPlugins.simps)
    next
      case True
      with ih show ?thesis by (simp add: groupPlugins_skip del: groupPlugins.simps)
    qed
  qed
qed

lemma groupPlugins_grouped:
  "grouped (snd (groupPlugins swl wl plugins m)) =
     grouped m \<union> normalizeVersion ` {p \<in> set plugins. \<not> skipped swl wl p}"
proof (induction plugins arbitrary: m)
  case Nil
  then show ?case by simp
next
  case (Cons p rest)
  show ?case
  proof (cases "skipped swl wl p")
    case True
    with Cons.IH [of m] show ?thesis by (auto simp: groupPlugins_skip simp del: groupPlugins.simps)
  next
    case False
    with Cons.IH show ?thesis
      by (auto simp: groupPlugins_take pushPlugin_grouped simp del: groupPlugins.simps)
  qed
qed

lemma groupPlugins_plugins:
  "fst (groupPlugins swl wl plugins m) =
     map (\<lambda>p. if skipped swl wl p then p else normalizeVersion p) plugins"
proof (induction plugins arbitrary: m)
  case Nil
  then show ?case by simp
next
  case (Cons p rest)
  show ?case
  proof (cases "skipped swl wl p")
    case True
    then have "fst (groupPlugins swl wl (p # rest) m) = p # fst (groupPlugins swl wl rest m)"
      by (simp split: prod.splits)
    with True Cons.IH [of m] show ?thesis by simp
  next
    case False
    let ?m1 = "pushPlugin (PLUGIN_KEY_PREFIX @ name (metadata (normalizeVersion p)))
                 (normalizeVersion p) m"
    from False have "fst (groupPlugins swl wl (p # rest) m) =
        normalizeVersion p # fst (groupPlugins swl wl rest ?m1)"
      by (simp add: Let_def split: prod.splits)
    with False Cons.IH [of ?m1] show ?thesis by simp
  qed
qed


lemma entry_grouped: "(k, ps) \<in> set m \<Longrightarrow> set ps \<subseteq> grouped m"
  by (force simp: grouped_def)

section \<open>A descriptor after the scan\<close>

text \<open>
  Claim C8, as the code has it. The loop of lines 306-318 leaves every descriptor of
  \<^verbatim>\<open>plugins\<close> with its path, its name and its other metadata; the version is
  overwritten with 0.0.0 exactly when the descriptor is not skipped by the whitelist
  and its version is not a semantic version, and is left alone otherwise. The
  descriptors of the plugin map are descriptors of that array, and sorting a plugin set
  permutes it. Loading reads the path only.
\<close>

theorem descriptor_changes_only_version:
  assumes "groupPlugins swl wl plugins [] = (plugins', pluginMap)"
  shows "list_all2
           (\<lambda>p q. path q = path p \<and> name (metadata q) = name (metadata p) \<and>
                  others (metadata q) = others (metadata p) \<and>
                  version (metadata q) =
                    (if \<not> skipped swl wl p \<and> \<not> semver_valid (version (metadata p))
                     then ''0.0.0'' else version (metadata p)))
           plugins plugins' \<and>
         grouped pluginMap \<subseteq> set plugins' \<and>
         (\<forall>pluginSet sortedSet.
            sortPlugins pluginSet = Inr sortedSet \<longrightarrow> mset sortedSet = mset pluginSet)"
proof -
  have p': "plugins' = map (\<lambda>p. if skipped swl wl p then p else normalizeVersion p) plugins"
    using assms groupPlugins_plugins [of swl wl plugins "[]"] by simp
  have m: "grouped pluginMap = normalizeVersion ` {p \<in> set plugins. \<not> skipped swl wl p}"
    using assms groupPlugins_grouped [of swl wl plugins "[]"] by (simp add: grouped_Nil)
  have "list_all2
           (\<lambda>p q. path q = path p \<and> name (metadata q) = name (metadata p) \<and>
                  others (metadata q) = others (metadata p) \<and>
                  version (metadata q) =
                    (if \<not> skipped swl wl p \<and> \<not> semver_valid (version (metadata p))
                     then ''0.0.0'' else version (metadata p)))
           plugins plugins'"
    unfolding p' by (simp add: list_all2_map2 list_all2_same normalizeVersion_fields)
  moreover have "grouped pluginMap \<subseteq> set plugins'"
    unfolding p' m by auto
  ultimately show ?thesis
    using sortPlugins_sorted by blast
qed

theorem descriptor_changes_only_version_witness:
  "groupPlugins False [] [pluginJunk, pluginNew] [] =
     ([withSentinel pluginJunk, pluginNew],
      [(''PLUGIN-other'', [withSentinel pluginJunk, pluginNew])]) \<and>
   list_all2
     (\<lambda>p q. path q = path p \<and> name (metadata q) = name (metadata p) \<and>
            others (metadata q) = others (metadata p) \<and>
            version (metadata q) =
              (if \<not> skipped False [] p \<and> \<not> semver_valid (version (metadata p))
               then ''0.0.0'' else version (metadata p)))
     [pluginJunk, pluginNew] [withSentinel pluginJunk, pluginNew] \<and>
   grouped [(''PLUGIN-other'', [withSentinel pluginJunk, pluginNew])]
     \<subseteq> set [withSentinel pluginJunk, pluginNew]"
proof -
  have run: "groupPlugins False [] [pluginJunk, pluginNew] [] =
     ([withSentinel pluginJunk, pluginNew],
      [(''PLUGIN-other'', [withSentinel pluginJunk, pluginNew])])"
    by code_simp
  from descriptor_changes_only_version [OF run] show ?thesis
    using run by blast
qed

text \<open>
  The claim as written says that no later operation changes any field of the metadata.
  Line 312 does: the descriptor with the version \<^verbatim>\<open>latest\<close> leaves the loop with the
  version 0.0.0.
\<close>

theorem version_is_overwritten:
  "fst (groupPlugins False [] [pluginJunk] []) = [withSentinel pluginJunk] \<and>
   version (metadata pluginJunk) = ''latest'' \<and>
   version (metadata (withSentinel pluginJunk)) = ''0.0.0'' \<and>
   withSentinel pluginJunk \<noteq> pluginJunk"
  by code_simp

section \<open>A version that is not a semantic version\<close>

lemma sentinel_after:
  assumes "parseSemVer v = Some sv" and "major sv \<noteq> 0 \<or> minor sv \<noteq> 0 \<or> patch sv \<noteq> 0"
  shows "semver_rcompare ''0.0.0'' v = Inr 1"
  using assms
  by (auto simp: semver_rcompare_def semver_compare_def parse_sentinel compareSemVer_def
      compareMain_def)

text \<open>
  Claim C4, as the code has it. A descriptor that is not skipped by the whitelist and
  whose version is not a semantic version is in the plugin set of its name, with the
  version 0.0.0; the sort of that set returns and keeps it; and in the sorted set it
  stands after every candidate whose version is valid and has a major, minor or patch
  number other than zero.
\<close>

theorem invalid_version_kept_below_nonzero:
  assumes "p \<in> set plugins" and "\<not> skipped swl wl p"
    and "\<not> semver_valid (version (metadata p))"
  shows "\<exists>pluginSet sortedSet.
           (PLUGIN_KEY_PREFIX @ name (metadata p), pluginSet)
             \<in> set (snd (groupPlugins swl wl plugins [])) \<and>
           withSentinel p \<in> set pluginSet \<and>
           sortPlugins pluginSet = Inr sortedSet \<and>
           withSentinel p \<in> set sortedSet \<and>
           (\<forall>i j sv. i < length sortedSet \<and> j < length sortedSet \<and>
                sortedSet ! i = withSentinel p \<and>
                parseSemVer (version (metadata (sortedSet ! j))) = Some sv \<and>
                (major sv \<noteq> 0 \<or> minor sv \<noteq> 0 \<or> patch sv \<noteq> 0) \<longrightarrow> j < i)"
proof -
  let ?m = "snd (groupPlugins swl wl plugins [])"
  from groupPlugins_entry [OF assms(1,2), of "[]"] obtain pluginSet where
    entry: "(PLUGIN_KEY_PREFIX @ name (metadata p), pluginSet) \<in> set ?m" and
    "normalizeVersion p \<in> set pluginSet" by blast
  then have kept: "withSentinel p \<in> set pluginSet"
    using normalizeVersion_invalid [OF assms(3)] by simp
  have "set pluginSet \<subseteq> normalizeVersion ` {p \<in> set plugins. \<not> skipped swl wl p}"
    using entry_grouped [OF entry] groupPlugins_grouped [of swl wl plugins "[]"]
    by (simp add: grouped_Nil)
  then have "\<forall>b \<in> set pluginSet. semver_valid (version (metadata b))"
    using normalizeVersion_valid by auto
  from sortPlugins_valid [OF this] obtain sortedSet where
    s: "sortPlugins pluginSet = Inr sortedSet" by blast
  from sortPlugins_sorted [OF s] have perm: "mset sortedSet = mset pluginSet"
    and sorted: "sorted_wrt notAfter sortedSet" by auto
  from perm kept have in_sorted: "withSentinel p \<in> set sortedSet"
    by (metis set_mset_mset)
  have "j < i"
    if "i < length sortedSet" "j < length sortedSet" "sortedSet ! i = withSentinel p"
      "parseSemVer (version (metadata (sortedSet ! j))) = Some sv"
      "major sv \<noteq> 0 \<or> minor sv \<noteq> 0 \<or> patch sv \<noteq> 0" for i j sv
  proof (rule ccontr)
    assume "\<not> j < i"
    have v: "version (metadata (sortedSet ! i)) = ''0.0.0''"
      using that(3) by (simp add: withSentinel_def)
    have "i \<noteq> j"
      using that(4,5) v parse_sentinel by auto
    with \<open>\<not> j < i\<close> have "i < j" by simp
    with sorted that(2) have "notAfter (sortedSet ! i) (sortedSet ! j)"
      by (simp add: sorted_wrt_iff_nth_less)
    then show False
      using sentinel_after [OF that(4,5)] v by (simp add: notAfter_def)
  qed
  with entry kept s in_sorted show ?thesis by blast
qed


theorem invalid_version_kept_below_nonzero_witness:
  "pluginJunk \<in> set [pluginJunk, pluginNew] \<and> \<not> skipped False [] pluginJunk \<and>
   \<not> semver_valid (version (metadata pluginJunk)) \<and>
   snd (groupPlugins False [] [pluginJunk, pluginNew] []) =
     [(''PLUGIN-other'', [withSentinel pluginJunk, pluginNew])] \<and>
   sortPlugins [withSentinel pluginJunk, pluginNew] = Inr [pluginNew, withSentinel pluginJunk] \<and>
   (\<exists>pluginSet sortedSet.
      (PLUGIN_KEY_PREFIX @ name (metadata pluginJunk), pluginSet)
        \<in> set (snd (groupPlugins False [] [pluginJunk, pluginNew] [])) \<and>
      withSentinel pluginJunk \<in> set pluginSet \<and>
      sortPlugins pluginSet = Inr sortedSet \<and>
      withSentinel pluginJunk \<in> set sortedSet \<and>
      (\<forall>i j sv. i < length sortedSet \<and> j < length sortedSet \<and>
           sortedSet ! i = withSentinel pluginJunk \<and>
           parseSemVer (version (metadata (sortedSet ! j))) = Some sv \<and>
           (major sv \<noteq> 0 \<or> minor sv \<noteq> 0 \<or> patch sv \<noteq> 0) \<longrightarrow> j < i))"
proof -
  have found: "pluginJunk \<in> set [pluginJunk, pluginNew]"
    by simp
  have kept: "\<not> skipped False [] pluginJunk"
    by (simp add: skipped_def)
  have invalid: "\<not> semver_valid (version (metadata pluginJunk))"
    by code_simp
  have groups: "snd (groupPlugins False [] [pluginJunk, pluginNew] []) =
      [(''PLUGIN-other'', [withSentinel pluginJunk, pluginNew])]"
    by code_simp
  have order: "sortPlugins [withSentinel pluginJunk, pluginNew] =
      Inr [pluginNew, withSentinel pluginJunk]"
    by code_simp
  from invalid_version_kept_below_nonzero [OF found kept invalid] show ?thesis
    using found kept invalid groups order by blast
qed

text \<open>
  The claim as written puts the sentinel below every valid version. It is not below a
  valid version whose numbers are all zero: the prerelease 0.0.0-alpha is valid and
  lower than 0.0.0, so the candidate with the unparsable version, found second, is
  sorted first; and it compares equal to a valid 0.0.0.
\<close>

theorem sentinel_above_valid_prerelease:
  "semver_valid (version (metadata pluginPre)) \<and>
   \<not> semver_valid (version (metadata pluginJunk)) \<and>
   snd (groupPlugins False [] [pluginPre, pluginJunk] []) =
     [(''PLUGIN-other'', [pluginPre, withSentinel pluginJunk])] \<and>
   sortPlugins [pluginPre, withSentinel pluginJunk] = Inr [withSentinel pluginJunk, pluginPre] \<and>
   semver_valid ''0.0.0'' \<and> semver_rcompare ''0.0.0'' ''0.0.0'' = Inr 0"
  by code_simp

section \<open>The whitelist of plugin names\<close>










text \<open>Every plugin set of the map has valid versions, so loading all plugins returns.\<close>

lemma loadPluginSets_returns:
  "\<forall>b \<in> grouped m. semver_valid (version (metadata b)) \<Longrightarrow>
   \<exists>n' w'. loadPluginSets env m n w = (Inr n', w')"
proof (induction m arbitrary: n w)
  case Nil
  then show ?case by simp
next
  case (Cons entry m)
  obtain k pluginSet where entry: "entry = (k, pluginSet)" by (cases entry)
  with Cons.prems have "\<forall>b \<in> set pluginSet. semver_valid (version (metadata b))"
    by (simp add: grouped_Cons)
  from loadPluginSet_returns [OF this] obtain n1 w1 where
    "loadPluginSet env pluginSet n w = (Inr n1, w1)" by blast
  moreover have "\<exists>n' w'. loadPluginSets env m n1 w1 = (Inr n', w')"
    using Cons.IH Cons.prems by (simp add: grouped_Cons)
  ultimately show ?case using entry by simp
qed

lemma loadAllPlugins_returns: "\<exists>n w'. loadAllPlugins env a w = (Inr n, w')"
proof -
  obtain plugins w1 where scan: "scanPluginDirectories env (pluginfolder a) w = (plugins, w1)"
    by (cases "scanPluginDirectories env (pluginfolder a) w")
  let ?m = "snd (groupPlugins (typeof (whiteListedPlugins a) = ''string'')
                   (whiteListOf (whiteListedPlugins a)) plugins [])"
  have "\<forall>b \<in> grouped ?m. semver_valid (version (metadata b))"
    by (auto simp: groupPlugins_grouped grouped_Nil normalizeVersion_valid)
  from loadPluginSets_returns [OF this] show ?thesis
    using scan by (simp add: loadAllPlugins_def Let_def)
qed



section \<open>Loading the plugin sets\<close>

text \<open>The loop over the keys runs the callback on each plugin set in turn.\<close>

lemma loadPluginSets_append:
  "loadPluginSets env (pre @ post) n w =
     (case loadPluginSets env pre n w of
        (Inl e, w1) \<Rightarrow> (Inl e, w1)
      | (Inr n1, w1) \<Rightarrow> loadPluginSets env post n1 w1)"
proof (induction pre arbitrary: n w)
  case Nil
  then show ?case by simp
next
  case (Cons entry pre)
  obtain k pluginSet where entry: "entry = (k, pluginSet)" by (cases entry)
  obtain r w1 where one: "loadPluginSet env pluginSet n w = (r, w1)"
    by (cases "loadPluginSet env pluginSet n w")
  show ?case
    using entry one Cons.IH by (cases r) simp_all
qed

text \<open>
  Claim C1. Take any plugin set of a plugin map whose versions are all valid, as they
  are after line 312. The loop over the keys returns; it reaches this set in the state
  \<open>w1\<close> with the count \<open>n1\<close> that the sets before it left, and hands the state \<open>w2\<close> and
  the count \<open>n2\<close> on to the sets after it. In between, the sort returns a permutation
  of the set in descending order of version, and \<^verbatim>\<open>loadPlugin\<close> is called on the paths of
  its first \<open>k\<close> candidates, in this order, each call on the generator state the call
  before left. Every call but the last threw. Either the last call succeeded and the
  count grew by exactly one, so that no candidate after it was tried; or all candidates
  were tried, every call threw and the count is unchanged. The state changed by these
  calls only: they are recorded, the generator is as the last call left it, and the
  log has one more error entry for each call that threw, made of the attempted path and
  the message of the exception.
\<close>

theorem load_in_descending_order_until_first_success:
  assumes "\<forall>b \<in> grouped (pre @ (key, pluginSet) # post). semver_valid (version (metadata b))"
  shows "\<exists>n1 w1 n2 w2 nEnd wEnd sortedSet k new g2.
           loadPluginSets env (pre @ (key, pluginSet) # post) n w = (Inr nEnd, wEnd) \<and>
           loadPluginSets env pre n w = (Inr n1, w1) \<and>
           loadPluginSets env post n2 w2 = (Inr nEnd, wEnd) \<and>
           sortPlugins pluginSet = Inr sortedSet \<and> mset sortedSet = mset pluginSet \<and>
           sorted_wrt notAfter sortedSet \<and>
           k \<le> length sortedSet \<and>
           callsOf env (generator w1) (map path (take k sortedSet)) = (new, g2) \<and>
           (\<forall>a \<in> set (butlast new). snd a \<noteq> None) \<and>
           (if new \<noteq> [] \<and> snd (last new) = None then n2 = n1 + 1
            else n2 = n1 \<and> k = length sortedSet) \<and>
           w2 = w1\<lparr>attempts := attempts w1 @ new, logged := logged w1 @ failureLog new,
                    generator := g2\<rparr>"
proof -
  have vpre: "\<forall>b \<in> grouped pre. semver_valid (version (metadata b))"
    and vset: "\<forall>b \<in> set pluginSet. semver_valid (version (metadata b))"
    and vpost: "\<forall>b \<in> grouped post. semver_valid (version (metadata b))"
    using assms by (auto simp: grouped_def)
  from loadPluginSets_returns [OF vpre] obtain n1 w1 where
    pre: "loadPluginSets env pre n w = (Inr n1, w1)" by blast
  from sortPlugins_valid [OF vset] obtain sortedSet where
    s: "sortPlugins pluginSet = Inr sortedSet" by blast
  obtain loaded w2 where l: "loadFirst env sortedSet w1 = (loaded, w2)"
    by (cases "loadFirst env sortedSet w1")
  define n2 where "n2 = (if loaded then n1 + 1 else n1)"
  have one: "loadPluginSet env pluginSet n1 w1 = (Inr n2, w2)"
    using s l by (simp add: loadPluginSet_def n2_def)
  from loadPluginSets_returns [OF vpost] obtain nEnd wEnd where
    post: "loadPluginSets env post n2 w2 = (Inr nEnd, wEnd)" by blast
  have whole: "loadPluginSets env (pre @ (key, pluginSet) # post) n w = (Inr nEnd, wEnd)"
    using pre one post by (simp add: loadPluginSets_append)
  from loadFirst_calls [OF l] obtain k new g2 where
    k: "k \<le> length sortedSet" and
    calls: "callsOf env (generator w1) (map path (take k sortedSet)) = (new, g2)" and
    threw: "\<forall>a \<in> set (butlast new). snd a \<noteq> None" and
    ending: "if loaded then new \<noteq> [] \<and> snd (last new) = None
             else k = length sortedSet \<and> (\<forall>a \<in> set new. snd a \<noteq> None)" and
    w2: "w2 = w1\<lparr>attempts := attempts w1 @ new, logged := logged w1 @ failureLog new,
                  generator := g2\<rparr>"
    by blast
  have "(new \<noteq> [] \<and> snd (last new) = None) = loaded"
  proof (cases loaded)
    case True
    with ending show ?thesis by simp
  next
    case False
    with ending have "\<forall>a \<in> set new. snd a \<noteq> None" by simp
    then have "new \<noteq> [] \<Longrightarrow> snd (last new) \<noteq> None"
      using last_in_set [of new] by blast
    with False show ?thesis by blast
  qed
  with ending have count: "if new \<noteq> [] \<and> snd (last new) = None then n2 = n1 + 1
      else n2 = n1 \<and> k = length sortedSet"
    by (auto simp: n2_def split: if_splits)
  from sortPlugins_sorted [OF s] have "mset sortedSet = mset pluginSet"
    and "sorted_wrt notAfter sortedSet" by auto
  with whole pre post s k calls threw count w2 show ?thesis by blast
qed

theorem load_in_descending_order_until_first_success_witness:
  "semver_valid (version (metadata pluginX)) \<and> semver_valid (version (metadata pluginY)) \<and>
   semver_valid (version (metadata pluginNew)) \<and>
   loadPluginSets demoEnv ([] @ (''PLUGIN-demo'', [pluginX, pluginY]) # [(''PLUGIN-other'', [pluginNew])])
     0 demoWorld = (Inr 2, demoAllLoaded) \<and>
   loadPluginSets demoEnv [(''PLUGIN-other'', [pluginNew])] 1 demoLoaded = (Inr 2, demoAllLoaded) \<and>
   sortPlugins [pluginX, pluginY] = Inr [pluginY, pluginX] \<and>
   callsOf demoEnv (generator demoWorld) (map path (take 2 [pluginY, pluginX])) =
     ([(''/work/A/y'', Some ''boom''), (''/work/A/x'', None)], 1) \<and>
   demoLoaded =
     demoWorld\<lparr>attempts := attempts demoWorld @ [(''/work/A/y'', Some ''boom''), (''/work/A/x'', None)],
                logged := logged demoWorld @
                  failureLog [(''/work/A/y'', Some ''boom''), (''/work/A/x'', None)],
                generator := 1\<rparr> \<and>
   logged demoLoaded = [(Error, [Text ''Unable to load plugin at '/work/A/y': boom''])] \<and>
   (\<exists>n1 w1 n2 w2 nEnd wEnd sortedSet k new g2.
      loadPluginSets demoEnv
        ([] @ (''PLUGIN-demo'', [pluginX, pluginY]) # [(''PLUGIN-other'', [pluginNew])])
        0 demoWorld = (Inr nEnd, wEnd) \<and>
      loadPluginSets demoEnv [] 0 demoWorld = (Inr n1, w1) \<and>
      loadPluginSets demoEnv [(''PLUGIN-other'', [pluginNew])] n2 w2 = (Inr nEnd, wEnd) \<and>
      sortPlugins [pluginX, pluginY] = Inr sortedSet \<and>
      mset sortedSet = mset [pluginX, pluginY] \<and>
      sorted_wrt notAfter sortedSet \<and>
      k \<le> length sortedSet \<and>
      callsOf demoEnv (generator w1) (map path (take k sortedSet)) = (new, g2) \<and>
      (\<forall>a \<in> set (butlast new). snd a \<noteq> None) \<and>
      (if new \<noteq> [] \<and> snd (last new) = None then n2 = n1 + 1
       else n2 = n1 \<and> k = length sortedSet) \<and>
      w2 = w1\<lparr>attempts := attempts w1 @ new, logged := logged w1 @ failureLog new,
               generator := g2\<rparr>)"
proof -
  have x: "semver_valid (version (metadata pluginX))"
    and y: "semver_valid (version (metadata pluginY))"
    and z: "semver_valid (version (metadata pluginNew))"
    by code_simp+
  then have valid: "\<forall>b \<in> grouped ([] @ (''PLUGIN-demo'', [pluginX, pluginY]) #
                                   [(''PLUGIN-other'', [pluginNew])]).
      semver_valid (version (metadata b))"
    by (simp add: grouped_def)
  have whole: "loadPluginSets demoEnv
      ([] @ (''PLUGIN-demo'', [pluginX, pluginY]) # [(''PLUGIN-other'', [pluginNew])])
      0 demoWorld = (Inr 2, demoAllLoaded)"
    by code_simp
  have rest: "loadPluginSets demoEnv [(''PLUGIN-other'', [pluginNew])] 1 demoLoaded =
      (Inr 2, demoAllLoaded)"
    by code_simp
  have order: "sortPlugins [pluginX, pluginY] = Inr [pluginY, pluginX]"
    by code_simp
  have calls: "callsOf demoEnv (generator demoWorld) (map path (take 2 [pluginY, pluginX])) =
      ([(''/work/A/y'', Some ''boom''), (''/work/A/x'', None)], 1)"
    by code_simp
  have state: "demoLoaded =
     demoWorld\<lparr>attempts := attempts demoWorld @ [(''/work/A/y'', Some ''boom''), (''/work/A/x'', None)],
                logged := logged demoWorld @
                  failureLog [(''/work/A/y'', Some ''boom''), (''/work/A/x'', None)],
                generator := 1\<rparr>"
    by code_simp
  have entry: "logged demoLoaded = [(Error, [Text ''Unable to load plugin at '/work/A/y': boom''])]"
    by code_simp
  from load_in_descending_order_until_first_success [OF valid, of demoEnv 0 demoWorld] show ?thesis
    using x y z whole rest order calls state entry by blast
qed

section \<open>The installation, end to end\<close>

text \<open>
  The folder \<^verbatim>\<open>A\<close> is not a plugin; its entries \<^verbatim>\<open>x\<close> and \<^verbatim>\<open>y\<close> are versions 1.0.0 and 2.0.0
  of \<^verbatim>\<open>demo\<close>. Version 2.0.0 is tried first and throws, version 1.0.0 is loaded, one
  plugin is counted and the process goes on.
\<close>

lemma demo_end_to_end:
  "init demoEnv [] demoArgv demoWorld =
     demoWorld\<lparr>whitelistedModuleFolders := [JStr ''/opt/generator'', JStr ''A''],
                logged := [(Error, [Text ''Unable to load plugin at '/work/A/y': boom''])],
                probed := [''/work/A'', ''/work/A/x'', ''/work/A/y''],
                attempts := [(''/work/A/y'', Some ''boom''), (''/work/A/x'', None)],
                generator := 1\<rparr> \<and>
   loadAllPlugins demoEnv demoArgv demoWorld = (Inr 1, init demoEnv [] demoArgv demoWorld)"
  by code_simp

end
